theory Spec2Isabelle
  imports Main
begin

section \<open>The drone route solver (solver.cpp) as HOL functions\<close>

text \<open>
  The program reads a grid of building heights, a battery capacity \<open>B\<close>, a recharge
  amount \<open>K\<close> and a set of recharge stations, and searches the graph whose nodes are
  (row, column, battery, altitude) for the least arrival time at the bottom-right cell.

  Conventions of the model.
  \<^item> The values of \<open>int\<close> and \<open>long long\<close> variables are integers. The functions
    \<open>advance\<close>, \<open>move\<close>, \<open>iter\<close>, \<open>loop\<close> and \<open>solve\<close> do the arithmetic of lines 88 to
    106 exactly. The functions \<open>advance_ll\<close>, \<open>move_ll\<close>, \<open>iter_ll\<close> do it in 64 bits, as a
    two's complement machine does (\<open>wrap\<close>); signed overflow is undefined in C++, and
    \<open>exact_move\<close> says that a move overflows nowhere, in which case both agree. The
    checked loop \<open>loop_ck\<close> runs the rounds in 64 bits and ends with \<open>Overflowed\<close> at the
    first round in which an operation would overflow.
    The constant \<open>INF = LLONG_MAX / 4\<close> of the source is \<open>INF_const\<close> (the name
    \<open>INF\<close> is taken by the syntax of infima).
  \<^item> \<open>std::priority_queue\<close> is a list of entries; \<open>push\<close> appends, \<open>top\<close>/\<open>pop\<close> take
    out an entry of least time. Which one of several entries of equal least time is
    taken is not fixed by the comparator, so it is read from a schedule
    \<open>sched :: nat \<Rightarrow> nat\<close>: the field \<open>pops\<close> of the search state counts the pops, and
    the schedule gives, for the number of the pop, the choice among the ties. The general
    theorems hold for every schedule; closed instances run the schedule \<open>first_tie\<close>.
  \<^item> \<open>std::map\<close> is a partial map; \<open>m[k]\<close> on a missing key reads the value-initialised
    element, which is written out where the source uses it.
\<close>

subsection \<open>Data\<close>

record State =
  time :: int
  row :: int
  col :: int
  battery :: int
  altitude :: int

type_synonym key = "int \<times> int \<times> int \<times> int"

definition key_of :: "State \<Rightarrow> key" where
  "key_of s = (row s, col s, battery s, altitude s)"

record input =
  N :: int
  M :: int
  B :: int
  K :: int
  height :: "int list list"
  recharge :: "(int \<times> int) set"

definition INF_const :: int where
  "INF_const = 9223372036854775807 div 4"

text \<open>The ranges of \<open>long long\<close> and \<open>int\<close>, and 64-bit two's complement wrap-around.\<close>

definition LLONG_MAX :: int where
  "LLONG_MAX = 9223372036854775807"

definition INT_MAX :: int where
  "INT_MAX = 2147483647"

definition fits :: "int \<Rightarrow> bool" where
  "fits x \<longleftrightarrow> - LLONG_MAX - 1 \<le> x \<and> x \<le> LLONG_MAX"

definition fits_int :: "int \<Rightarrow> bool" where
  "fits_int x \<longleftrightarrow> - INT_MAX - 1 \<le> x \<and> x \<le> INT_MAX"

definition wrap :: "int \<Rightarrow> int" where
  "wrap x = (x + 9223372036854775808) mod 18446744073709551616 - 9223372036854775808"

record search =
  pq :: "State list"
  dist :: "key \<rightharpoonup> int"
  parent :: "key \<rightharpoonup> key"
  bestTime :: int
  bestState :: key
  pops :: nat

definition dirs :: "(int \<times> int) list" where
  "dirs = [(0, 1), (0, -1), (1, 0), (-1, 0)]"

subsection \<open>One move (lines 84 to 107)\<close>

text \<open>
  Lines 88 to 98: the time, the battery and the altitude after flying from \<open>cur\<close> to the
  cell \<open>(nr, nc)\<close>, before the battery check and before any recharge.
\<close>

definition advance :: "input \<Rightarrow> State \<Rightarrow> int \<Rightarrow> int \<Rightarrow> int \<times> int \<times> int" where
  "advance inp cur nr nc =
     (let nt = time cur + 1;
          nb = battery cur - 1;
          newAlt = altitude cur
      in if height inp ! nat nr ! nat nc > altitude cur
         then (let climb = height inp ! nat nr ! nat nc - altitude cur
               in (nt + climb, nb - climb, height inp ! nat nr ! nat nc))
         else (nt, nb, newAlt))"

text \<open>
  Lines 84 to 107: the entry generated for direction \<open>d\<close>, or \<open>None\<close> where the loop
  body runs into \<open>continue\<close> (cell outside the grid, battery below zero).
\<close>

definition move :: "input \<Rightarrow> State \<Rightarrow> int \<times> int \<Rightarrow> State option" where
  "move inp cur d =
     (let nr = row cur + fst d; nc = col cur + snd d in
      if nr < 0 \<or> nr \<ge> N inp \<or> nc < 0 \<or> nc \<ge> M inp then None
      else
        case advance inp cur nr nc of
          (nt, nb, newAlt) \<Rightarrow>
            if nb < 0 then None
            else Some \<lparr>time = nt, row = nr, col = nc,
                       battery = (if (nr, nc) \<in> recharge inp then min (B inp) (nb + K inp) else nb),
                       altitude = newAlt\<rparr>)"

subsection \<open>The search loop (lines 53 to 116)\<close>

definition init :: "input \<Rightarrow> search" where
  "init inp =
     (let startAlt = height inp ! 0 ! 0 in
      \<lparr>pq = [\<lparr>time = startAlt, row = 0, col = 0, battery = B inp, altitude = startAlt\<rparr>],
       dist = [(0, 0, B inp, startAlt) \<mapsto> startAlt],
       parent = Map.empty,
       bestTime = INF_const,
       bestState = (0, 0, 0, 0),
       pops = 0\<rparr>)"

definition tops :: "State list \<Rightarrow> nat list" where
  "tops q = filter (\<lambda>i. \<forall>e \<in> set q. time (q ! i) \<le> time e) [0..<length q]"

definition pick :: "(nat \<Rightarrow> nat) \<Rightarrow> nat \<Rightarrow> State list \<Rightarrow> nat" where
  "pick sched n q = tops q ! (sched n mod length (tops q))"

definition stale :: "search \<Rightarrow> State \<Rightarrow> bool" where
  "stale st cur = (case dist st (key_of cur) of None \<Rightarrow> False | Some t \<Rightarrow> t < time cur)"

definition at_dest :: "input \<Rightarrow> State \<Rightarrow> bool" where
  "at_dest inp cur \<longleftrightarrow> row cur = N inp - 1 \<and> col cur = M inp - 1"

definition visit_dest :: "State \<Rightarrow> search \<Rightarrow> search" where
  "visit_dest cur st =
     (if time cur < bestTime st then st\<lparr>bestTime := time cur, bestState := key_of cur\<rparr> else st)"

definition relax :: "key \<Rightarrow> State \<Rightarrow> search \<Rightarrow> search" where
  "relax k e st =
     (if dist st (key_of e) = None \<or> the (dist st (key_of e)) > time e
      then st\<lparr>dist := (dist st)(key_of e \<mapsto> time e),
              parent := (parent st)(key_of e \<mapsto> k),
              pq := pq st @ [e]\<rparr>
      else st)"

text \<open>The body of the loop over the directions, and the loop (lines 80 to 115).\<close>

definition relax_dir :: "input \<Rightarrow> State \<Rightarrow> int \<times> int \<Rightarrow> search \<Rightarrow> search" where
  "relax_dir inp cur d st =
     (case move inp cur d of None \<Rightarrow> st | Some e \<Rightarrow> relax (key_of cur) e st)"

definition expand :: "input \<Rightarrow> State \<Rightarrow> search \<Rightarrow> search" where
  "expand inp cur st = fold (relax_dir inp cur) dirs st"

definition pop :: "(nat \<Rightarrow> nat) \<Rightarrow> search \<Rightarrow> State \<times> search" where
  "pop sched st =
     (let j = pick sched (pops st) (pq st)
      in (pq st ! j, st\<lparr>pq := take j (pq st) @ drop (Suc j) (pq st), pops := Suc (pops st)\<rparr>))"

definition visit :: "input \<Rightarrow> State \<Rightarrow> search \<Rightarrow> search" where
  "visit inp cur st =
     (if stale st cur then st
      else if at_dest inp cur then visit_dest cur st
      else expand inp cur st)"

definition iter :: "(nat \<Rightarrow> nat) \<Rightarrow> input \<Rightarrow> search \<Rightarrow> search" where
  "iter sched inp st = (case pop sched st of (cur, st') \<Rightarrow> visit inp cur st')"

partial_function (option) loop :: "(nat \<Rightarrow> nat) \<Rightarrow> input \<Rightarrow> search \<Rightarrow> search option" where
  "loop sched inp st = (if pq st = [] then Some st else loop sched inp (iter sched inp st))"

declare loop.simps [code]

subsection \<open>Path reconstruction (lines 124 to 132)\<close>

type_synonym step = "int \<times> int \<times> int \<times> int \<times> int"

definition dist_at :: "search \<Rightarrow> key \<Rightarrow> int" where
  "dist_at st k = (case dist st k of None \<Rightarrow> 0 | Some t \<Rightarrow> t)"

definition parent_at :: "search \<Rightarrow> key \<Rightarrow> key" where
  "parent_at st k = (case parent st k of None \<Rightarrow> (0, 0, 0, 0) | Some p \<Rightarrow> p)"

definition step_of :: "search \<Rightarrow> key \<Rightarrow> step" where
  "step_of st k = (case k of (r, c, b, a) \<Rightarrow> (r, c, b, a, dist_at st k))"

partial_function (option) backtrack :: "search \<Rightarrow> key \<Rightarrow> step list \<Rightarrow> step list option" where
  "backtrack st cur path =
     (let path = path @ [step_of st cur]
      in if fst cur = 0 \<and> fst (snd cur) = 0 then Some path
         else backtrack st (parent_at st cur) path)"

declare backtrack.simps [code]

datatype result = No_path | Found int "step list"

definition report :: "search \<Rightarrow> result option" where
  "report st =
     (if bestTime st = INF_const then Some No_path
      else case backtrack st (bestState st) [] of
             None \<Rightarrow> None
           | Some path \<Rightarrow> Some (Found (bestTime st) (rev path)))"

definition solve :: "(nat \<Rightarrow> nat) \<Rightarrow> input \<Rightarrow> result option" where
  "solve sched inp = (case loop sched inp (init inp) of None \<Rightarrow> None | Some st \<Rightarrow> report st)"

subsection \<open>Input and output (lines 23 to 43 and 118 to 156)\<close>

text \<open>
  The input stream is the list of its integer tokens. A read from the exhausted stream
  fails and leaves the variable as it was: the heights stay at the zero the vector was
  filled with, and \<open>S\<close>, \<open>r\<close> and \<open>c\<close>, which have no initialiser, keep an indeterminate
  value. The indeterminate values are a parameter of the model. A token outside the range
  of the variable stores the nearest bound of the range and fails the stream, so that
  every later read fails: the model goes on with no tokens. (The subtractions \<open>r - 1\<close>
  and \<open>c - 1\<close> of line 42 are exact; a pair outside the grid, wrapped or not, is never
  looked up with success.)
\<close>

record garbage =
  junk_S :: int
  junk_rc :: "nat \<Rightarrow> int \<times> int"

definition no_junk :: garbage where
  "no_junk = \<lparr>junk_S = 0, junk_rc = (\<lambda>i. (0, 0))\<rparr>"

definition rd :: "int \<Rightarrow> int \<Rightarrow> int \<Rightarrow> int list \<Rightarrow> int \<times> int list" where
  "rd lo hi old ts =
     (case ts of
        [] \<Rightarrow> (old, [])
      | t # ts' \<Rightarrow> if t < lo then (lo, []) else if hi < t then (hi, []) else (t, ts'))"

definition rd_ll :: "int \<Rightarrow> int list \<Rightarrow> int \<times> int list" where
  "rd_ll old ts = rd (- LLONG_MAX - 1) LLONG_MAX old ts"

definition rd_int :: "int \<Rightarrow> int list \<Rightarrow> int \<times> int list" where
  "rd_int old ts = rd (- INT_MAX - 1) INT_MAX old ts"

fun read_row :: "nat \<Rightarrow> int list \<Rightarrow> int list \<times> int list" where
  "read_row 0 ts = ([], ts)"
| "read_row (Suc m) ts =
     (case rd_ll 0 ts of (v, ts1) \<Rightarrow> case read_row m ts1 of (vs, ts2) \<Rightarrow> (v # vs, ts2))"

fun read_grid :: "nat \<Rightarrow> nat \<Rightarrow> int list \<Rightarrow> int list list \<times> int list" where
  "read_grid 0 m ts = ([], ts)"
| "read_grid (Suc n) m ts =
     (case read_row m ts of (r, ts1) \<Rightarrow> case read_grid n m ts1 of (rs, ts2) \<Rightarrow> (r # rs, ts2))"

fun read_stations :: "(nat \<Rightarrow> int \<times> int) \<Rightarrow> nat \<Rightarrow> nat \<Rightarrow> int list \<Rightarrow> (int \<times> int) set" where
  "read_stations g i 0 ts = {}"
| "read_stations g i (Suc n) ts =
     (case rd_int (fst (g i)) ts of (r, ts1) \<Rightarrow>
        case rd_int (snd (g i)) ts1 of (c, ts2) \<Rightarrow>
          insert (r - 1, c - 1) (read_stations g (Suc i) n ts2))"

definition read_input :: "garbage \<Rightarrow> int list \<Rightarrow> input" where
  "read_input g ts =
     (case read_grid (nat (ts ! 0)) (nat (ts ! 1)) (drop 4 ts) of (h, ts1) \<Rightarrow>
        case rd_int (junk_S g) ts1 of (s, ts2) \<Rightarrow>
          \<lparr>N = ts ! 0, M = ts ! 1, B = ts ! 2, K = ts ! 3, height = h,
           recharge = read_stations (junk_rc g) 0 (nat s) ts2\<rparr>)"

fun show_nat :: "nat \<Rightarrow> string" where
  "show_nat n =
     (if n < 10 then [''0123456789'' ! n]
      else show_nat (n div 10) @ [''0123456789'' ! (n mod 10)])"

declare show_nat.simps [simp del]

definition show_int :: "int \<Rightarrow> string" where
  "show_int i = (if i < 0 then CHR ''-'' # show_nat (nat (- i)) else show_nat (nat i))"

definition newline :: char where
  "newline = CHR 0x0A"

definition quoted :: "string \<Rightarrow> string" where
  "quoted s = CHR 0x22 # s @ [CHR 0x22]"

definition show_step :: "step \<Rightarrow> string" where
  "show_step p =
     (case p of (r, c, b, alt, t) \<Rightarrow>
        ''    {'' @ quoted ''row'' @ '':'' @ show_int r
        @ '','' @ quoted ''col'' @ '':'' @ show_int c
        @ '','' @ quoted ''battery'' @ '':'' @ show_int b
        @ '','' @ quoted ''altitude'' @ '':'' @ show_int alt
        @ '','' @ quoted ''time'' @ '':'' @ show_int t @ ''}'')"

fun show_path :: "step list \<Rightarrow> string" where
  "show_path [] = []"
| "show_path [p] = show_step p @ [newline]"
| "show_path (p # ps) = show_step p @ '','' @ [newline] @ show_path ps"

definition render :: "result \<Rightarrow> string" where
  "render res =
     (case res of
        No_path \<Rightarrow> ''-1'' @ [newline]
      | Found t path \<Rightarrow>
          ''{'' @ [newline]
          @ ''  '' @ quoted ''time'' @ '': '' @ show_int t @ '','' @ [newline]
          @ ''  '' @ quoted ''path'' @ '': ['' @ [newline]
          @ show_path path
          @ ''  ]'' @ [newline]
          @ ''}'' @ [newline])"

text \<open>
  What a run of the program does: it ends normally with the text it wrote to standard
  output, it is ended by the exception of a vector of negative size, it reads
  \<open>height[0][0]\<close> of an empty grid (undefined behaviour), or it does not end. The read
  of the header (line 25) fails, and the program ends without output, when one of the four
  tokens is missing or outside the range of its variable. \<open>run_search\<close> prints the
  result of the exact search, which is the result of every run whose arithmetic does not
  overflow (lemma \<open>solve_ck_total\<close>).
\<close>

datatype outcome = Exit string | Aborted | Undefined | Diverges

definition run_search :: "(nat \<Rightarrow> nat) \<Rightarrow> input \<Rightarrow> outcome" where
  "run_search sched inp =
     (if N inp = 0 \<or> M inp = 0 then Undefined
      else case solve sched inp of None \<Rightarrow> Diverges | Some res \<Rightarrow> Exit (render res))"

definition header_ok :: "int list \<Rightarrow> bool" where
  "header_ok ts \<longleftrightarrow>
     4 \<le> length ts \<and> fits_int (ts ! 0) \<and> fits_int (ts ! 1) \<and> fits (ts ! 2) \<and> fits (ts ! 3)"

definition main_prog :: "garbage \<Rightarrow> (nat \<Rightarrow> nat) \<Rightarrow> int list \<Rightarrow> outcome" where
  "main_prog g sched ts =
     (if \<not> header_ok ts then Exit []
      else if ts ! 0 < 0 \<or> ts ! 1 < 0 then Aborted
      else run_search sched (read_input g ts))"

subsection \<open>The states of a run\<close>

text \<open>The state of the loop after \<open>n\<close> rounds, \<open>None\<close> once the loop has been left.\<close>

fun state_after :: "(nat \<Rightarrow> nat) \<Rightarrow> input \<Rightarrow> nat \<Rightarrow> search \<Rightarrow> search option" where
  "state_after sched inp 0 st = Some st"
| "state_after sched inp (Suc n) st =
     (if pq st = [] then None else state_after sched inp n (iter sched inp st))"

text \<open>The schedule that always takes the first of the entries of least time.\<close>

definition first_tie :: "nat \<Rightarrow> nat" where
  "first_tie n = 0"

subsection \<open>The variant that stops at the first arrival\<close>




subsection \<open>The arithmetic of the moves in 64 bits\<close>

text \<open>
  Lines 88 to 98 and line 106 with every sum and difference taken in 64 bits. The other
  steps of a round compare and copy values and are shared with the exact functions.
\<close>

definition advance_ll :: "input \<Rightarrow> State \<Rightarrow> int \<Rightarrow> int \<Rightarrow> int \<times> int \<times> int" where
  "advance_ll inp cur nr nc =
     (let nt = wrap (time cur + 1);
          nb = wrap (battery cur - 1);
          newAlt = altitude cur
      in if height inp ! nat nr ! nat nc > altitude cur
         then (let climb = wrap (height inp ! nat nr ! nat nc - altitude cur)
               in (wrap (nt + climb), wrap (nb - climb), height inp ! nat nr ! nat nc))
         else (nt, nb, newAlt))"

definition move_ll :: "input \<Rightarrow> State \<Rightarrow> int \<times> int \<Rightarrow> State option" where
  "move_ll inp cur d =
     (let nr = row cur + fst d; nc = col cur + snd d in
      if nr < 0 \<or> nr \<ge> N inp \<or> nc < 0 \<or> nc \<ge> M inp then None
      else
        case advance_ll inp cur nr nc of
          (nt, nb, newAlt) \<Rightarrow>
            if nb < 0 then None
            else Some \<lparr>time = nt, row = nr, col = nc,
                       battery = (if (nr, nc) \<in> recharge inp
                                  then min (B inp) (wrap (nb + K inp)) else nb),
                       altitude = newAlt\<rparr>)"

definition relax_dir_ll :: "input \<Rightarrow> State \<Rightarrow> int \<times> int \<Rightarrow> search \<Rightarrow> search" where
  "relax_dir_ll inp cur d st =
     (case move_ll inp cur d of None \<Rightarrow> st | Some e \<Rightarrow> relax (key_of cur) e st)"

definition expand_ll :: "input \<Rightarrow> State \<Rightarrow> search \<Rightarrow> search" where
  "expand_ll inp cur st = fold (relax_dir_ll inp cur) dirs st"

definition visit_ll :: "input \<Rightarrow> State \<Rightarrow> search \<Rightarrow> search" where
  "visit_ll inp cur st =
     (if stale st cur then st
      else if at_dest inp cur then visit_dest cur st
      else expand_ll inp cur st)"

definition iter_ll :: "(nat \<Rightarrow> nat) \<Rightarrow> input \<Rightarrow> search \<Rightarrow> search" where
  "iter_ll sched inp st = (case pop sched st of (cur, st') \<Rightarrow> visit_ll inp cur st')"

fun state_after_ll :: "(nat \<Rightarrow> nat) \<Rightarrow> input \<Rightarrow> nat \<Rightarrow> search \<Rightarrow> search option" where
  "state_after_ll sched inp 0 st = Some st"
| "state_after_ll sched inp (Suc n) st =
     (if pq st = [] then None else state_after_ll sched inp n (iter_ll sched inp st))"

text \<open>
  No operation of the move in direction \<open>d\<close> overflows: the exact value of every sum and
  difference that lines 88 to 106 compute for this move fits into \<open>long long\<close>. (Nothing
  is computed for a cell outside the grid, and line 106 is reached only with a battery
  that is not negative and at a station.)
\<close>

definition exact_move :: "input \<Rightarrow> State \<Rightarrow> int \<times> int \<Rightarrow> bool" where
  "exact_move inp cur d =
     (let nr = row cur + fst d; nc = col cur + snd d in
      if nr < 0 \<or> nr \<ge> N inp \<or> nc < 0 \<or> nc \<ge> M inp then True
      else
        fits (time cur + 1) \<and> fits (battery cur - 1)
        \<and> (if height inp ! nat nr ! nat nc > altitude cur
            then fits (height inp ! nat nr ! nat nc - altitude cur)
                 \<and> fits (time cur + 1 + (height inp ! nat nr ! nat nc - altitude cur))
                 \<and> fits (battery cur - 1 - (height inp ! nat nr ! nat nc - altitude cur))
            else True)
        \<and> (case advance inp cur nr nc of
              (nt, nb, newAlt) \<Rightarrow>
                if 0 \<le> nb \<and> (nr, nc) \<in> recharge inp then fits (nb + K inp) else True))"

text \<open>No operation of the next round of the loop overflows.\<close>

definition exact_round :: "(nat \<Rightarrow> nat) \<Rightarrow> input \<Rightarrow> search \<Rightarrow> bool" where
  "exact_round sched inp st =
     (case pop sched st of
        (cur, st') \<Rightarrow> stale st' cur \<or> at_dest inp cur \<or> list_all (exact_move inp cur) dirs)"

text \<open>
  The loop with the arithmetic in 64 bits, ended at the first round in which an operation
  would overflow: from there on the behaviour of the program is undefined.
\<close>

datatype 'a run = Done 'a | Overflowed

partial_function (option) loop_ck :: "(nat \<Rightarrow> nat) \<Rightarrow> input \<Rightarrow> search \<Rightarrow> search run option" where
  "loop_ck sched inp st =
     (if pq st = [] then Some (Done st)
      else if exact_round sched inp st then loop_ck sched inp (iter_ll sched inp st)
      else Some Overflowed)"

declare loop_ck.simps [code]

definition solve_ck :: "(nat \<Rightarrow> nat) \<Rightarrow> input \<Rightarrow> result run option" where
  "solve_ck sched inp =
     (case loop_ck sched inp (init inp) of
        None \<Rightarrow> None
      | Some Overflowed \<Rightarrow> Some Overflowed
      | Some (Done st) \<Rightarrow> map_option Done (report st))"

text \<open>The heights of a grid are not negative and fit into \<open>long long\<close>.\<close>

definition heights_ok :: "input \<Rightarrow> bool" where
  "heights_ok inp \<longleftrightarrow> list_all (list_all (\<lambda>h. 0 \<le> h \<and> h \<le> LLONG_MAX)) (height inp)"

text \<open>An entry whose battery and altitude are in range.\<close>

definition sound_entry :: "input \<Rightarrow> State \<Rightarrow> bool" where
  "sound_entry inp e \<longleftrightarrow>
     0 \<le> battery e \<and> battery e \<le> B inp \<and> 0 \<le> altitude e \<and> altitude e \<le> LLONG_MAX"

text \<open>
  A sufficient condition for a run without overflow: no recharge has an effect, so that
  a route costs at most \<open>B\<close>, and \<open>height[0][0] + B + 1\<close> plus any height fits.
\<close>

definition short_run :: "input \<Rightarrow> bool" where
  "short_run inp \<longleftrightarrow>
     (K inp = 0 \<or> recharge inp = {}) \<and> 0 \<le> B inp
     \<and> list_all (list_all (\<lambda>h. 0 \<le> h \<and> height inp ! 0 ! 0 + B inp + 1 + h \<le> LLONG_MAX))
           (height inp)"

subsection \<open>Routes\<close>

text \<open>
  A grid is well formed when it has at least one row and one column and \<open>height\<close> is an
  \<open>N\<close> by \<open>M\<close> matrix, as the vector built in line 29 is.
\<close>

definition grid_ok :: "input \<Rightarrow> bool" where
  "grid_ok inp \<longleftrightarrow>
     1 \<le> N inp \<and> 1 \<le> M inp \<and> int (length (height inp)) = N inp
     \<and> list_all (\<lambda>r. int (length r) = M inp) (height inp)"

definition start_state :: "input \<Rightarrow> State" where
  "start_state inp =
     \<lparr>time = height inp ! 0 ! 0, row = 0, col = 0, battery = B inp,
      altitude = height inp ! 0 ! 0\<rparr>"

text \<open>
  A route is a list of directions. \<open>fly\<close> makes the moves of the route one after the
  other, each as the loop body generates it, and fails where a move is not generated.
\<close>

fun fly :: "input \<Rightarrow> State \<Rightarrow> (int \<times> int) list \<Rightarrow> State option" where
  "fly inp s [] = Some s"
| "fly inp s (d # ds) =
     (if d \<in> set dirs
      then case move inp s d of None \<Rightarrow> None | Some s' \<Rightarrow> fly inp s' ds
      else None)"

text \<open>
  The cost of one move: 1, plus the climb where the cell entered is taller than the
  altitude before the move. The cost of a route is the sum over its moves.
\<close>

definition move_cost :: "input \<Rightarrow> State \<Rightarrow> State \<Rightarrow> int" where
  "move_cost inp s s' =
     1 + (if height inp ! nat (row s') ! nat (col s') > altitude s
          then height inp ! nat (row s') ! nat (col s') - altitude s else 0)"

fun route_cost :: "input \<Rightarrow> State \<Rightarrow> (int \<times> int) list \<Rightarrow> int option" where
  "route_cost inp s [] = Some 0"
| "route_cost inp s (d # ds) =
     (if d \<in> set dirs
      then case move inp s d of
             None \<Rightarrow> None
           | Some s' \<Rightarrow>
               (case route_cost inp s' ds of None \<Rightarrow> None | Some c \<Rightarrow> Some (move_cost inp s s' + c))
      else None)"

text \<open>The cost of a route from the start state that ends in the destination cell.\<close>

definition arrival_cost :: "input \<Rightarrow> (int \<times> int) list \<Rightarrow> int option" where
  "arrival_cost inp ds =
     (case fly inp (start_state inp) ds of
        None \<Rightarrow> None
      | Some s \<Rightarrow> if at_dest inp s then route_cost inp (start_state inp) ds else None)"

definition least_cost :: "input \<Rightarrow> int \<Rightarrow> bool" where
  "least_cost inp c \<longleftrightarrow>
     (\<exists>ds. arrival_cost inp ds = Some c) \<and> (\<forall>ds c'. arrival_cost inp ds = Some c' \<longrightarrow> c \<le> c')"


text \<open>Two records of the path are one grid step apart.\<close>

definition adjacent :: "step \<Rightarrow> step \<Rightarrow> bool" where
  "adjacent p q \<longleftrightarrow>
     (case p of (r, c, _) \<Rightarrow> case q of (r', c', _) \<Rightarrow> \<bar>r' - r\<bar> + \<bar>c' - c\<bar> = 1)"

definition cell :: "step \<Rightarrow> int \<times> int" where
  "cell p = (case p of (r, c, _) \<Rightarrow> (r, c))"

definition step_battery :: "step \<Rightarrow> int" where
  "step_battery p = (case p of (r, c, b, a, t) \<Rightarrow> b)"

definition step_altitude :: "step \<Rightarrow> int" where
  "step_altitude p = (case p of (r, c, b, a, t) \<Rightarrow> a)"

definition step_time :: "step \<Rightarrow> int" where
  "step_time p = (case p of (r, c, b, a, t) \<Rightarrow> t)"

definition step_key :: "step \<Rightarrow> key" where
  "step_key p = (case p of (r, c, b, a, t) \<Rightarrow> (r, c, b, a))"

subsection \<open>Invariants of the search\<close>

definition entry :: "int \<Rightarrow> key \<Rightarrow> State" where
  "entry t k =
     (case k of (r, c, b, a) \<Rightarrow> \<lparr>time = t, row = r, col = c, battery = b, altitude = a\<rparr>)"

definition reached :: "input \<Rightarrow> State \<Rightarrow> bool" where
  "reached inp s \<longleftrightarrow> (\<exists>ds. fly inp (start_state inp) ds = Some s)"

definition covered :: "search \<Rightarrow> State \<Rightarrow> bool" where
  "covered st e \<longleftrightarrow> (\<exists>t. dist st (key_of e) = Some t \<and> t \<le> time e)"

definition settled :: "input \<Rightarrow> search \<Rightarrow> State \<Rightarrow> bool" where
  "settled inp st s \<longleftrightarrow>
     (if at_dest inp s then bestTime st \<le> time s
      else \<forall>d \<in> set dirs. \<forall>e. move inp s d = Some e \<longrightarrow> covered st e)"

definition edge :: "input \<Rightarrow> key \<Rightarrow> key \<Rightarrow> bool" where
  "edge inp p k \<longleftrightarrow> (\<exists>d \<in> set dirs. \<exists>e. move inp (entry 0 p) d = Some e \<and> key_of e = k)"

definition inv_sound :: "input \<Rightarrow> search \<Rightarrow> bool" where
  "inv_sound inp st \<longleftrightarrow>
     (\<forall>e \<in> set (pq st). reached inp e)
     \<and> (\<forall>k t. dist st k = Some t \<longrightarrow> reached inp (entry t k))"

definition inv_cov :: "input \<Rightarrow> search \<Rightarrow> bool" where
  "inv_cov inp st \<longleftrightarrow> covered st (start_state inp) \<and> (\<forall>e \<in> set (pq st). covered st e)"

definition inv_done :: "input \<Rightarrow> search \<Rightarrow> State set \<Rightarrow> bool" where
  "inv_done inp st X \<longleftrightarrow>
     (\<forall>k t. dist st k = Some t \<longrightarrow>
        entry t k \<in> set (pq st) \<or> settled inp st (entry t k) \<or> entry t k \<in> X)"

definition inv_chain :: "input \<Rightarrow> search \<Rightarrow> bool" where
  "inv_chain inp st \<longleftrightarrow>
     (\<forall>k t. dist st k = Some t \<longrightarrow>
        k = key_of (start_state inp)
        \<or> (\<exists>p tp. parent st k = Some p \<and> dist st p = Some tp \<and> tp < t \<and> edge inp p k))"

definition inv_best :: "input \<Rightarrow> search \<Rightarrow> bool" where
  "inv_best inp st \<longleftrightarrow>
     bestTime st \<le> INF_const
     \<and> (bestTime st < INF_const \<longrightarrow>
          (\<exists>t. dist st (bestState st) = Some t \<and> t \<le> bestTime st)
          \<and> reached inp (entry (bestTime st) (bestState st))
          \<and> at_dest inp (entry (bestTime st) (bestState st)))"

definition invar :: "input \<Rightarrow> search \<Rightarrow> State set \<Rightarrow> bool" where
  "invar inp st X \<longleftrightarrow>
     inv_sound inp st \<and> inv_cov inp st \<and> inv_done inp st X \<and> inv_chain inp st \<and> inv_best inp st"

text \<open>The keys a run can meet, and the measure that decreases in every round.\<close>

definition universe :: "input \<Rightarrow> key set" where
  "universe inp =
     insert (key_of (start_state inp))
       ({0..<N inp} \<times> {0..<M inp} \<times> {min (B inp) (min 0 (K inp))..B inp}
        \<times> insert (height inp ! 0 ! 0)
            ((\<lambda>(r, c). height inp ! nat r ! nat c) ` ({0..<N inp} \<times> {0..<M inp})))"

definition unseen :: "input \<Rightarrow> search \<Rightarrow> nat" where
  "unseen inp st = card (universe inp - dom (dist st))"

definition slack :: "input \<Rightarrow> search \<Rightarrow> nat" where
  "slack inp st = (\<Sum>k \<in> dom (dist st). nat (the (dist st k) - height inp ! 0 ! 0))"

definition closer :: "input \<Rightarrow> search \<Rightarrow> search \<Rightarrow> bool" where
  "closer inp st' st \<longleftrightarrow>
     unseen inp st' < unseen inp st
     \<or> (unseen inp st' = unseen inp st \<and> slack inp st' < slack inp st)"

definition progress :: "input \<Rightarrow> (search \<times> search) set" where
  "progress inp =
     inv_image (less_than <*lex*> less_than <*lex*> less_than)
       (\<lambda>st. (unseen inp st, slack inp st, length (pq st)))"

lemmas run_defs = solve_def init_def loop.simps iter_def pop_def pick_def tops_def visit_def
  stale_def key_of_def at_dest_def visit_dest_def expand_def relax_dir_def dirs_def move_def
  advance_def
  relax_def report_def backtrack.simps step_of_def dist_at_def parent_at_def Let_def

lemmas ll_defs = solve_ck_def loop_ck.simps exact_round_def exact_move_def iter_ll_def
  visit_ll_def expand_ll_def relax_dir_ll_def move_ll_def advance_ll_def wrap_def fits_def
  LLONG_MAX_def

lemmas read_defs = main_prog_def header_ok_def run_search_def read_input_def rd_def rd_ll_def rd_int_def
  fits_def fits_int_def LLONG_MAX_def INT_MAX_def

section \<open>Basic facts\<close>

subsection \<open>Entries and keys\<close>

lemma key_of_entry [simp]: "key_of (entry t k) = k"
  by (cases k) (simp add: entry_def key_of_def)

lemma time_entry [simp]: "time (entry t k) = t"
  by (cases k) (simp add: entry_def)

lemma entry_key_of [simp]: "entry (time s) (key_of s) = s"
  by (simp add: entry_def key_of_def)

lemma entry_eqD: "entry t k = e \<Longrightarrow> t = time e \<and> k = key_of e"
  by auto

lemma at_dest_key: "key_of s = key_of s' \<Longrightarrow> at_dest inp s = at_dest inp s'"
  by (simp add: at_dest_def key_of_def)

subsection \<open>Facts about one move\<close>

lemma move_time: "move inp s d = Some e \<Longrightarrow> time s < time e"
  by (auto simp: move_def advance_def Let_def split: if_splits)

lemma move_shift:
  assumes "move inp s d = Some e" and "key_of s' = key_of s"
  shows "\<exists>e'. move inp s' d = Some e' \<and> key_of e' = key_of e
           \<and> time e' = time s' + (time e - time s)"
  using assms by (auto simp: move_def advance_def Let_def key_of_def split: if_splits)

lemma move_cost_time: "move inp s d = Some e \<Longrightarrow> time e = time s + move_cost inp s e"
  by (auto simp: move_def advance_def Let_def move_cost_def split: if_splits)

lemma move_adjacent:
  "d \<in> set dirs \<Longrightarrow> move inp s d = Some e \<Longrightarrow>
     \<bar>row e - row s\<bar> + \<bar>col e - col s\<bar> = 1 \<and> altitude s \<le> altitude e"
  by (auto simp: move_def advance_def Let_def dirs_def split: if_splits)

lemma move_in_grid:
  "move inp s d = Some e \<Longrightarrow>
     0 \<le> row e \<and> row e < N inp \<and> 0 \<le> col e \<and> col e < M inp
     \<and> battery e \<le> max (B inp) (battery s)
     \<and> min (B inp) (min 0 (K inp)) \<le> battery e
     \<and> (altitude e = altitude s \<or> altitude e = height inp ! nat (row e) ! nat (col e))"
  by (auto simp: move_def advance_def Let_def split: if_splits)

lemma move_battery:
  "0 \<le> B inp \<Longrightarrow> 0 \<le> K inp \<Longrightarrow> battery s \<le> B inp \<Longrightarrow> move inp s d = Some e \<Longrightarrow>
     0 \<le> battery e \<and> battery e \<le> B inp"
  by (auto simp: move_def advance_def Let_def split: if_splits)

subsection \<open>Routes\<close>

lemma fly_append:
  "fly inp s (ds @ es) = (case fly inp s ds of None \<Rightarrow> None | Some s' \<Rightarrow> fly inp s' es)"
  by (induction ds arbitrary: s) (auto split: option.splits)

lemma route_cost_fly:
  "route_cost inp s ds = map_option (\<lambda>s'. time s' - time s) (fly inp s ds)"
proof (induction ds arbitrary: s)
  case Nil
  show ?case by simp
next
  case (Cons d ds)
  show ?case
  proof (cases "d \<in> set dirs")
    case False
    then show ?thesis by simp
  next
    case True
    show ?thesis
    proof (cases "move inp s d")
      case None
      with True show ?thesis by simp
    next
      case (Some s')
      from move_cost_time [OF Some] have "move_cost inp s s' = time s' - time s" by simp
      with True Some Cons.IH [of s'] show ?thesis
        by (cases "fly inp s' ds") auto
    qed
  qed
qed

lemma fly_time: "fly inp s ds = Some s' \<Longrightarrow> time s \<le> time s'"
proof (induction ds arbitrary: s)
  case Nil
  then show ?case by simp
next
  case (Cons d ds)
  then show ?case
    by (fastforce split: if_splits option.splits dest: move_time)
qed

lemma reached_start: "reached inp (start_state inp)"
  unfolding reached_def by (rule exI [of _ "[]"]) simp

lemma reached_step:
  assumes "reached inp s" and "d \<in> set dirs" and "move inp s d = Some e"
  shows "reached inp e"
proof -
  from assms(1) obtain ds where "fly inp (start_state inp) ds = Some s"
    by (auto simp: reached_def)
  with assms(2,3) have "fly inp (start_state inp) (ds @ [d]) = Some e"
    by (simp add: fly_append)
  then show ?thesis unfolding reached_def by blast
qed

lemma reached_induct [consumes 1, case_names start step]:
  assumes "reached inp s"
    and "P (start_state inp)"
    and "\<And>s d e. reached inp s \<Longrightarrow> P s \<Longrightarrow> d \<in> set dirs \<Longrightarrow> move inp s d = Some e \<Longrightarrow> P e"
  shows "P s"
proof -
  from assms(1) obtain ds where "fly inp (start_state inp) ds = Some s"
    by (auto simp: reached_def)
  then show ?thesis
  proof (induction ds arbitrary: s rule: rev_induct)
    case Nil
    with assms(2) show ?case by simp
  next
    case (snoc d ds)
    from snoc.prems obtain s1 where s1: "fly inp (start_state inp) ds = Some s1"
      and mv: "d \<in> set dirs" "move inp s1 d = Some s"
      by (auto simp: fly_append split: option.splits if_splits)
    from s1 have "reached inp s1" by (auto simp: reached_def)
    with assms(3) snoc.IH [OF s1] mv show ?case by blast
  qed
qed

lemma reached_time: "reached inp s \<Longrightarrow> height inp ! 0 ! 0 \<le> time s"
  by (auto simp: reached_def start_state_def dest: fly_time)

lemma finite_universe: "finite (universe inp)"
  by (simp add: universe_def)

lemma reached_shape:
  assumes "reached inp s"
  shows "battery s \<le> B inp
    \<and> altitude s \<in> insert (height inp ! 0 ! 0)
         ((\<lambda>(r, c). height inp ! nat r ! nat c) ` ({0..<N inp} \<times> {0..<M inp}))
    \<and> (key_of s = key_of (start_state inp)
       \<or> row s \<in> {0..<N inp} \<and> col s \<in> {0..<M inp} \<and> min (B inp) (min 0 (K inp)) \<le> battery s)"
  using assms
proof (induction rule: reached_induct)
  case start
  show ?case by (simp add: start_state_def)
next
  case (step s d e)
  let ?A = "insert (height inp ! 0 ! 0)
         ((\<lambda>(r, c). height inp ! nat r ! nat c) ` ({0..<N inp} \<times> {0..<M inp}))"
  from move_in_grid [OF step.hyps(3)]
  have g: "0 \<le> row e" "row e < N inp" "0 \<le> col e" "col e < M inp"
    and b: "battery e \<le> max (B inp) (battery s)" "min (B inp) (min 0 (K inp)) \<le> battery e"
    and a: "altitude e = altitude s \<or> altitude e = height inp ! nat (row e) ! nat (col e)"
    by blast+
  from step.IH have bs: "battery s \<le> B inp" and as: "altitude s \<in> ?A" by blast+
  from b(1) bs have 1: "battery e \<le> B inp" by simp
  from g have "(row e, col e) \<in> {0..<N inp} \<times> {0..<M inp}" by simp
  then have "(\<lambda>(r, c). height inp ! nat r ! nat c) (row e, col e) \<in> ?A" by blast
  then have "height inp ! nat (row e) ! nat (col e) \<in> ?A" by simp
  with a as have 2: "altitude e \<in> ?A" by metis
  from g b(2) have 3: "row e \<in> {0..<N inp} \<and> col e \<in> {0..<M inp}
      \<and> min (B inp) (min 0 (K inp)) \<le> battery e" by simp
  from 1 2 3 show ?case by blast
qed

lemma reached_universe: "reached inp s \<Longrightarrow> key_of s \<in> universe inp"
  using reached_shape [of inp s] unfolding universe_def key_of_def
  by (simp only: mem_Sigma_iff insert_iff atLeastAtMost_iff) blast

lemma reached_battery:
  assumes "0 \<le> B inp" and "0 \<le> K inp" and "reached inp s"
  shows "0 \<le> battery s \<and> battery s \<le> B inp"
  using assms(3)
proof (induction rule: reached_induct)
  case start
  from assms(1) show ?case by (simp add: start_state_def)
next
  case (step s d e)
  with move_battery [OF assms(1,2) _ step.hyps(3)] show ?case by simp
qed

subsection \<open>Taking the top of the queue\<close>

lemma tops_nonempty: "q \<noteq> [] \<Longrightarrow> tops q \<noteq> []"
proof -
  assume "q \<noteq> []"
  then have "time ` set q \<noteq> {}" "finite (time ` set q)" by auto
  then have "Min (time ` set q) \<in> time ` set q" by (rule_tac Min_in)
  then obtain e where e: "e \<in> set q" "time e = Min (time ` set q)" by auto
  then obtain i where i: "i < length q" "q ! i = e" by (auto simp: in_set_conv_nth)
  have "\<forall>x \<in> set q. time (q ! i) \<le> time x"
    using e i by (simp add: Min_le)
  with i have "i \<in> set (tops q)" by (simp add: tops_def)
  then show ?thesis by auto
qed

lemma pick_top:
  assumes "q \<noteq> []"
  shows "pick sched n q < length q \<and> (\<forall>e \<in> set q. time (q ! pick sched n q) \<le> time e)"
proof -
  from tops_nonempty [OF assms] have "sched n mod length (tops q) < length (tops q)" by simp
  then have "pick sched n q \<in> set (tops q)" by (simp add: pick_def)
  then show ?thesis by (simp add: tops_def)
qed

lemma set_remove_nth:
  assumes "j < length q"
  shows "set (take j q @ drop (Suc j) q) \<subseteq> set q"
    and "set q \<subseteq> insert (q ! j) (set (take j q @ drop (Suc j) q))"
proof -
  have "set q = set (take j q @ q ! j # drop (Suc j) q)"
    by (rule arg_cong [where f = set], rule id_take_nth_drop [OF assms])
  then have eq: "set q = set (take j q) \<union> insert (q ! j) (set (drop (Suc j) q))"
    by (simp only: set_append list.set)
  show "set (take j q @ drop (Suc j) q) \<subseteq> set q"
    by (auto dest: in_set_takeD in_set_dropD)
  from eq show "set q \<subseteq> insert (q ! j) (set (take j q @ drop (Suc j) q))"
    by auto
qed

lemma pop_facts:
  assumes "pq st \<noteq> []" and "pop sched st = (cur, st')"
  shows "cur \<in> set (pq st)"
    and "\<forall>e \<in> set (pq st). time cur \<le> time e"
    and "set (pq st') \<subseteq> set (pq st)"
    and "set (pq st) \<subseteq> insert cur (set (pq st'))"
    and "Suc (length (pq st')) = length (pq st)"
    and "dist st' = dist st" and "parent st' = parent st"
    and "bestTime st' = bestTime st" and "bestState st' = bestState st"
proof -
  define j where "j = pick sched (pops st) (pq st)"
  from pick_top [OF assms(1)] have j: "j < length (pq st)"
    and le: "\<forall>e \<in> set (pq st). time (pq st ! j) \<le> time e" by (auto simp: j_def)
  from assms(2) have cur: "cur = pq st ! j"
    and st': "st' = st\<lparr>pq := take j (pq st) @ drop (Suc j) (pq st), pops := Suc (pops st)\<rparr>"
    by (simp_all add: pop_def Let_def j_def)
  from st' have q': "pq st' = take j (pq st) @ drop (Suc j) (pq st)" by simp
  from j cur show "cur \<in> set (pq st)" by simp
  from le cur show "\<forall>e \<in> set (pq st). time cur \<le> time e" by simp
  from set_remove_nth(1) [OF j] q' show "set (pq st') \<subseteq> set (pq st)" by simp
  from set_remove_nth(2) [OF j] q' cur show "set (pq st) \<subseteq> insert cur (set (pq st'))" by simp
  from q' j show "Suc (length (pq st')) = length (pq st)" by (simp add: min_def)
  from st' show "dist st' = dist st" "parent st' = parent st"
    "bestTime st' = bestTime st" "bestState st' = bestState st" by simp_all
qed

section \<open>Single moves and small inputs\<close>

lemma INF_value: "INF_const = 2305843009213693951"
  by (simp add: INF_const_def)



text \<open>
  Claim C2 says that every 1 by 1 grid gives time 0 and the single record with time 0.
  With \<open>height[0][0] = 3\<close> the program reports time 3, and 3 as the time of the record.
\<close>

theorem one_cell_counterexample:
  "solve first_tie \<lparr>N = 1, M = 1, B = 5, K = 0, height = [[3]], recharge = {}\<rparr>
     = Some (Found 3 [(0, 0, 5, 3, 3)])
   \<and> solve first_tie \<lparr>N = 1, M = 1, B = 5, K = 0, height = [[3]], recharge = {}\<rparr>
     \<noteq> Some (Found 0 [(0, 0, 5, 3, 0)])"
  by (simp add: run_defs INF_value)

text \<open>
  Claim C2, amended. On a 1 by 1 grid with \<open>height[0][0] < INF\<close> the program reports the
  time \<open>height[0][0]\<close>, with which line 55 starts the clock, and the path of exactly one
  record, the origin state with battery \<open>B\<close>, altitude \<open>height[0][0]\<close> and arrival time
  \<open>height[0][0]\<close>. From \<open>height[0][0] = INF\<close> on it prints \<open>-1\<close>.
\<close>

theorem one_cell:
  "solve sched \<lparr>N = 1, M = 1, B = b, K = k, height = [[h]], recharge = R\<rparr> =
     (if h < INF_const then Some (Found h [(0, 0, b, h, h)]) else Some No_path)"
  by (simp add: run_defs)

text \<open>
  Claim C9 at the input \<open>1 1 5 0\<close>, which ends after the header: only the read of the
  header is checked (line 25), so the program goes on with the height 0 and prints a
  result, whatever the indeterminate values of \<open>S\<close>, \<open>r\<close> and \<open>c\<close> are.
\<close>

theorem truncated_input_prints:
  "main_prog g sched [1, 1, 5, 0] = Exit (render (Found 0 [(0, 0, 5, 0, 0)]))
   \<and> render (Found 0 [(0, 0, 5, 0, 0)]) \<noteq> []"
  apply (simp add: read_defs)
  apply (simp add: run_defs INF_value render_def)
  done

text \<open>
  Claim C6 at the input \<open>1 3 7 7 / 0 5 7 / 1 / 1 1\<close>. The only route to the destination
  climbs to altitude 5, returns to the station at the origin and sets out again. The
  reconstruction stops at the first state of the origin cell it meets (line 129), so the
  printed path starts with the second visit of the origin, at altitude 5 and time 7,
  while \<open>height[0][0] = 0\<close>. (That the altitudes never decrease along a printed path
  holds on every input: lemma \<open>reported_path_climbs\<close>.)
\<close>

theorem path_starts_midway:
  "solve sched \<lparr>N = 1, M = 3, B = 7, K = 7, height = [[0, 5, 7]], recharge = {(0, 0)}\<rparr>
     = Some (Found 11 [(0, 0, 7, 5, 7), (0, 1, 6, 5, 8), (0, 2, 3, 7, 11)])
   \<and> read_input g [1, 3, 7, 7, 0, 5, 7, 1, 1, 1]
     = \<lparr>N = 1, M = 3, B = 7, K = 7, height = [[0, 5, 7]], recharge = {(0, 0)}\<rparr>
   \<and> step_altitude (hd [(0, 0, 7, 5, 7), (0, 1, 6, 5, 8), (0, 2, 3, 7, 11)])
     \<noteq> height \<lparr>N = 1, M = 3, B = 7, K = 7, height = [[0, 5, 7]], recharge = {(0, 0)}\<rparr> ! 0 ! 0"
  apply (intro conjI)
    apply (simp add: run_defs INF_value)
   apply (simp add: read_defs numeral_2_eq_2 numeral_3_eq_3)
  apply (simp add: step_altitude_def)
  done

section \<open>The invariant of the search\<close>

subsection \<open>Reading the invariants\<close>

lemma inv_sound_pq: "inv_sound inp st \<Longrightarrow> e \<in> set (pq st) \<Longrightarrow> reached inp e"
  unfolding inv_sound_def by blast

lemma inv_sound_dist: "inv_sound inp st \<Longrightarrow> dist st k = Some t \<Longrightarrow> reached inp (entry t k)"
  unfolding inv_sound_def by blast

lemma inv_cov_pq: "inv_cov inp st \<Longrightarrow> e \<in> set (pq st) \<Longrightarrow> covered st e"
  unfolding inv_cov_def by blast

lemma inv_cov_start: "inv_cov inp st \<Longrightarrow> covered st (start_state inp)"
  unfolding inv_cov_def by blast

lemma inv_doneD:
  "inv_done inp st X \<Longrightarrow> dist st k = Some t \<Longrightarrow>
     entry t k \<in> set (pq st) \<or> settled inp st (entry t k) \<or> entry t k \<in> X"
  unfolding inv_done_def by blast

lemma inv_chainD:
  "inv_chain inp st \<Longrightarrow> dist st k = Some t \<Longrightarrow> k \<noteq> key_of (start_state inp) \<Longrightarrow>
     \<exists>p tp. parent st k = Some p \<and> dist st p = Some tp \<and> tp < t \<and> edge inp p k"
  unfolding inv_chain_def by blast

lemma inv_bestD:
  "inv_best inp st \<Longrightarrow> bestTime st < INF_const \<Longrightarrow>
     (\<exists>t. dist st (bestState st) = Some t \<and> t \<le> bestTime st)
     \<and> reached inp (entry (bestTime st) (bestState st))
     \<and> at_dest inp (entry (bestTime st) (bestState st))"
  unfolding inv_best_def by blast

lemma inv_best_le: "inv_best inp st \<Longrightarrow> bestTime st \<le> INF_const"
  unfolding inv_best_def by blast

subsection \<open>Relaxing one edge\<close>

lemma relax_cases [case_names same push]:
  assumes "relax k e st = st \<Longrightarrow> covered st e \<Longrightarrow> P"
    and "dist st (key_of e) = None \<or> time e < the (dist st (key_of e)) \<Longrightarrow>
         relax k e st = st\<lparr>dist := (dist st)(key_of e \<mapsto> time e),
                           parent := (parent st)(key_of e \<mapsto> k),
                           pq := pq st @ [e]\<rparr> \<Longrightarrow> P"
  shows P
proof (cases "dist st (key_of e) = None \<or> time e < the (dist st (key_of e))")
  case True
  then show ?thesis by (intro assms(2)) (simp_all add: relax_def)
next
  case False
  then have "relax k e st = st" "covered st e"
    by (auto simp: relax_def covered_def)
  then show ?thesis by (rule assms(1))
qed

lemma relax_best [simp]:
  "bestTime (relax k e st) = bestTime st" "bestState (relax k e st) = bestState st"
  by (simp_all add: relax_def)

lemma relax_pq_subset: "set (pq st) \<subseteq> set (pq (relax k e st))"
  by (auto simp: relax_def)

lemma relax_pq_new: "x \<in> set (pq (relax k e st)) \<Longrightarrow> x \<in> set (pq st) \<or> x = e"
  by (auto simp: relax_def split: if_splits)

lemma relax_dist:
  assumes "dist (relax k e st) k' = Some t"
  shows "dist st k' = Some t \<or> (k' = key_of e \<and> t = time e \<and> e \<in> set (pq (relax k e st)))"
  using assms by (cases rule: relax_cases [of k e st]) (auto split: if_splits)

lemma relax_dist_mono:
  assumes "dist st k' = Some t"
  shows "\<exists>t'. dist (relax k e st) k' = Some t' \<and> t' \<le> t"
  using assms by (cases rule: relax_cases [of k e st]) auto

lemma relax_covers: "covered (relax k e st) e"
  by (cases rule: relax_cases [of k e st]) (auto simp: covered_def)

lemma covered_relax: "covered st x \<Longrightarrow> covered (relax k e st) x"
  unfolding covered_def using relax_dist_mono [of st "key_of x" _ k e] by fastforce

lemma settled_relax: "settled inp st s \<Longrightarrow> settled inp (relax k e st) s"
  unfolding settled_def by (auto intro: covered_relax)

lemma relax_frame:
  assumes "dist st k = Some tk" and "tk < time e"
  shows "dist (relax k e st) k = Some tk"
  using assms by (cases rule: relax_cases [of k e st]) auto

lemma inv_sound_relax:
  assumes "inv_sound inp st" and "reached inp e"
  shows "inv_sound inp (relax k e st)"
  unfolding inv_sound_def
proof (intro conjI ballI allI impI)
  fix x assume "x \<in> set (pq (relax k e st))"
  with relax_pq_new [of x k e st] assms show "reached inp x"
    by (auto dest: inv_sound_pq)
next
  fix k' t assume "dist (relax k e st) k' = Some t"
  from relax_dist [OF this] assms show "reached inp (entry t k')"
    by (auto dest: inv_sound_dist)
qed

lemma inv_cov_relax:
  assumes "inv_cov inp st"
  shows "inv_cov inp (relax k e st)"
  unfolding inv_cov_def
proof (intro conjI ballI)
  from assms show "covered (relax k e st) (start_state inp)"
    by (simp add: inv_cov_start covered_relax)
next
  fix x assume "x \<in> set (pq (relax k e st))"
  with relax_pq_new [of x k e st] assms show "covered (relax k e st) x"
    by (auto dest: inv_cov_pq intro: covered_relax relax_covers)
qed

lemma inv_done_relax:
  assumes "inv_done inp st X"
  shows "inv_done inp (relax k e st) X"
  unfolding inv_done_def
proof (intro allI impI)
  fix k' t assume "dist (relax k e st) k' = Some t"
  from relax_dist [OF this]
  show "entry t k' \<in> set (pq (relax k e st)) \<or> settled inp (relax k e st) (entry t k')
        \<or> entry t k' \<in> X"
  proof
    assume "dist st k' = Some t"
    with assms have "entry t k' \<in> set (pq st) \<or> settled inp st (entry t k') \<or> entry t k' \<in> X"
      by (rule inv_doneD)
    with relax_pq_subset [of st k e] settled_relax [of inp st _ k e] show ?thesis by blast
  next
    assume "k' = key_of e \<and> t = time e \<and> e \<in> set (pq (relax k e st))"
    then show ?thesis by simp
  qed
qed

lemma inv_best_relax:
  assumes "inv_best inp st"
  shows "inv_best inp (relax k e st)"
proof -
  {
    assume "bestTime st < INF_const"
    with assms obtain t where "dist st (bestState st) = Some t" "t \<le> bestTime st"
      by (blast dest: inv_bestD)
    with relax_dist_mono [of st "bestState st" t k e]
    have "\<exists>t. dist (relax k e st) (bestState st) = Some t \<and> t \<le> bestTime st"
      by fastforce
  }
  with assms show ?thesis by (simp add: inv_best_def)
qed

lemma inv_chain_relax:
  assumes "inv_chain inp st" and "dist st k = Some tk" and "tk < time e"
    and "edge inp k (key_of e)"
  shows "inv_chain inp (relax k e st)"
proof (cases rule: relax_cases [of k e st])
  case same
  with assms(1) show ?thesis by simp
next
  case push
  from push(1) assms(2,3) have ne: "k \<noteq> key_of e" by auto
  show ?thesis
    unfolding inv_chain_def
  proof (intro allI impI)
    fix k' t assume d: "dist (relax k e st) k' = Some t"
    show "k' = key_of (start_state inp)
        \<or> (\<exists>p tp. parent (relax k e st) k' = Some p \<and> dist (relax k e st) p = Some tp
              \<and> tp < t \<and> edge inp p k')"
    proof (cases "k' = key_of e")
      case True
      with d push(2) have "t = time e" by simp
      moreover from True push(2) have "parent (relax k e st) k' = Some k" by simp
      moreover from ne push(2) assms(2) have "dist (relax k e st) k = Some tk" by simp
      ultimately show ?thesis using assms(3,4) True by blast
    next
      case False
      with d push(2) have d0: "dist st k' = Some t" by simp
      show ?thesis
      proof (cases "k' = key_of (start_state inp)")
        case True
        then show ?thesis by simp
      next
        case ns: False
        with assms(1) d0 obtain p tp where p: "parent st k' = Some p" "dist st p = Some tp"
          "tp < t" "edge inp p k'"
          by (blast dest: inv_chainD)
        from False push(2) p(1) have 1: "parent (relax k e st) k' = Some p" by simp
        from relax_dist_mono [OF p(2), of k e] obtain tp' where
          "dist (relax k e st) p = Some tp'" "tp' \<le> tp" by blast
        with 1 p(3,4) show ?thesis by force
      qed
    qed
  qed
qed

subsection \<open>One round of the loop keeps the invariant\<close>

lemma invarI:
  "inv_sound inp st \<Longrightarrow> inv_cov inp st \<Longrightarrow> inv_done inp st X \<Longrightarrow> inv_chain inp st \<Longrightarrow>
     inv_best inp st \<Longrightarrow> invar inp st X"
  by (simp add: invar_def)

lemma invarD:
  assumes "invar inp st X"
  shows "inv_sound inp st" "inv_cov inp st" "inv_done inp st X" "inv_chain inp st"
    "inv_best inp st"
  using assms by (simp_all add: invar_def)

lemma edge_move:
  assumes "d \<in> set dirs" and "move inp cur d = Some e"
  shows "edge inp (key_of cur) (key_of e)"
proof -
  from move_shift [OF assms(2), of "entry 0 (key_of cur)"]
  obtain e' where "move inp (entry 0 (key_of cur)) d = Some e'" "key_of e' = key_of e"
    by auto
  with assms(1) show ?thesis unfolding edge_def by blast
qed

lemma relax_step_invar:
  assumes "invar inp st X" and "dist st (key_of cur) = Some (time cur)"
    and "reached inp cur" and "d \<in> set dirs" and "move inp cur d = Some e"
  shows "invar inp (relax (key_of cur) e st) X"
    and "dist (relax (key_of cur) e st) (key_of cur) = Some (time cur)"
proof -
  note I = invarD [OF assms(1)]
  from assms(3-5) have r: "reached inp e" by (rule reached_step)
  from assms(5) have t: "time cur < time e" by (rule move_time)
  from assms(4,5) have ed: "edge inp (key_of cur) (key_of e)" by (rule edge_move)
  show "invar inp (relax (key_of cur) e st) X"
    by (intro invarI inv_sound_relax inv_cov_relax inv_done_relax inv_best_relax
        inv_chain_relax [OF _ assms(2) t ed] I r)
  from assms(2) t show "dist (relax (key_of cur) e st) (key_of cur) = Some (time cur)"
    by (rule relax_frame)
qed

lemma relax_dir_invar:
  assumes "invar inp st X" and "dist st (key_of cur) = Some (time cur)"
    and "reached inp cur" and "d \<in> set dirs"
  shows "invar inp (relax_dir inp cur d st) X"
    and "dist (relax_dir inp cur d st) (key_of cur) = Some (time cur)"
proof -
  show "invar inp (relax_dir inp cur d st) X"
  proof (cases "move inp cur d")
    case None
    with assms(1) show ?thesis by (simp add: relax_dir_def)
  next
    case (Some e)
    from relax_step_invar(1) [OF assms Some] Some show ?thesis by (simp add: relax_dir_def)
  qed
  show "dist (relax_dir inp cur d st) (key_of cur) = Some (time cur)"
  proof (cases "move inp cur d")
    case None
    with assms(2) show ?thesis by (simp add: relax_dir_def)
  next
    case (Some e)
    from relax_step_invar(2) [OF assms Some] Some show ?thesis by (simp add: relax_dir_def)
  qed
qed

lemma covered_relax_dir: "covered st x \<Longrightarrow> covered (relax_dir inp cur d st) x"
  by (cases "move inp cur d") (simp_all add: relax_dir_def covered_relax)

lemma fold_relax_covered:
  "covered st x \<Longrightarrow> covered (fold (relax_dir inp cur) ds st) x"
proof (induction ds arbitrary: st)
  case Nil
  then show ?case by simp
next
  case (Cons d ds)
  from Cons.prems have "covered (relax_dir inp cur d st) x" by (rule covered_relax_dir)
  then have "covered (fold (relax_dir inp cur) ds (relax_dir inp cur d st)) x" by (rule Cons.IH)
  then show ?case by simp
qed

lemma fold_relax_invar:
  assumes "reached inp cur"
  shows "set ds \<subseteq> set dirs \<Longrightarrow> invar inp st X \<Longrightarrow> dist st (key_of cur) = Some (time cur) \<Longrightarrow>
    invar inp (fold (relax_dir inp cur) ds st) X"
proof (induction ds arbitrary: st)
  case Nil
  then show ?case by simp
next
  case (Cons d ds)
  from Cons.prems(1) have d: "d \<in> set dirs" and ds: "set ds \<subseteq> set dirs" by simp_all
  note 1 = relax_dir_invar [OF Cons.prems(2,3) assms d]
  from Cons.IH [OF ds 1] show ?case by simp
qed

lemma fold_relax_covers:
  "d \<in> set ds \<Longrightarrow> move inp cur d = Some e \<Longrightarrow> covered (fold (relax_dir inp cur) ds st) e"
proof (induction ds arbitrary: st)
  case Nil
  then show ?case by simp
next
  case (Cons a ds)
  show ?case
  proof (cases "d = a")
    case True
    with Cons.prems(2) have "relax_dir inp cur a st = relax (key_of cur) e st"
      by (simp add: relax_dir_def)
    then have "covered (relax_dir inp cur a st) e" by (simp add: relax_covers)
    then have "covered (fold (relax_dir inp cur) ds (relax_dir inp cur a st)) e"
      by (rule fold_relax_covered)
    then show ?thesis by simp
  next
    case False
    with Cons.prems(1) have "d \<in> set ds" by simp
    from Cons.IH [OF this Cons.prems(2)] show ?thesis by simp
  qed
qed

lemma expand_invar:
  assumes "reached inp cur" and "invar inp st X" and "dist st (key_of cur) = Some (time cur)"
    and "\<not> at_dest inp cur"
  shows "invar inp (expand inp cur st) X" and "settled inp (expand inp cur st) cur"
proof -
  from fold_relax_invar [OF assms(1) subset_refl assms(2,3)]
  show "invar inp (expand inp cur st) X" by (simp add: expand_def)
  from assms(4) show "settled inp (expand inp cur st) cur"
    unfolding settled_def expand_def by (simp add: fold_relax_covers)
qed

lemma visit_dest_fields [simp]:
  "pq (visit_dest cur st) = pq st" "dist (visit_dest cur st) = dist st"
  "parent (visit_dest cur st) = parent st"
  by (simp_all add: visit_dest_def)

lemma covered_cong: "dist st' = dist st \<Longrightarrow> covered st' x = covered st x"
  by (simp add: covered_def)

lemma settled_mono:
  assumes "settled inp st s" and "dist st' = dist st" and "bestTime st' \<le> bestTime st"
  shows "settled inp st' s"
  using assms covered_cong [OF assms(2)] unfolding settled_def by (auto split: if_splits)

lemma visit_dest_invar:
  assumes "reached inp cur" and "invar inp st X" and "dist st (key_of cur) = Some (time cur)"
    and "at_dest inp cur"
  shows "invar inp (visit_dest cur st) X" and "settled inp (visit_dest cur st) cur"
proof -
  note I = invarD [OF assms(2)]
  let ?st = "visit_dest cur st"
  have le: "bestTime ?st \<le> bestTime st" "bestTime ?st \<le> time cur"
    by (simp_all add: visit_dest_def)
  have cov: "\<And>x. covered ?st x = covered st x" by (rule covered_cong) simp
  have 1: "inv_sound inp ?st" using I(1) by (simp add: inv_sound_def)
  have 2: "inv_cov inp ?st" using I(2) by (simp add: inv_cov_def cov)
  have 3: "inv_done inp ?st X"
    unfolding inv_done_def
  proof (intro allI impI)
    fix k t assume "dist ?st k = Some t"
    then have "dist st k = Some t" by simp
    from inv_doneD [OF I(3) this] settled_mono [OF _ _ le(1), of inp "entry t k"]
    show "entry t k \<in> set (pq ?st) \<or> settled inp ?st (entry t k) \<or> entry t k \<in> X"
      by auto
  qed
  have 4: "inv_chain inp ?st" using I(4) by (simp add: inv_chain_def)
  have 5: "inv_best inp ?st"
  proof (cases "time cur < bestTime st")
    case True
    then have eq: "bestTime ?st = time cur" "bestState ?st = key_of cur"
      by (simp_all add: visit_dest_def)
    from True inv_best_le [OF I(5)] have "time cur < INF_const" by simp
    with eq assms(1,3,4) show ?thesis by (simp add: inv_best_def)
  next
    case False
    then have "?st = st" by (simp add: visit_dest_def)
    with I(5) show ?thesis by simp
  qed
  from 1 2 3 4 5 show "invar inp ?st X" by (rule invarI)
  from assms(4) le(2) show "settled inp ?st cur" by (simp add: settled_def)
qed

lemma inv_done_close:
  assumes "inv_done inp st {cur}"
    and "settled inp st cur \<or> dist st (key_of cur) \<noteq> Some (time cur)"
  shows "inv_done inp st {}"
  unfolding inv_done_def
proof (intro allI impI)
  fix k t assume d: "dist st k = Some t"
  from inv_doneD [OF assms(1) d]
  have "entry t k \<in> set (pq st) \<or> settled inp st (entry t k) \<or> entry t k = cur" by simp
  moreover {
    assume e: "entry t k = cur"
    then have "t = time cur" "k = key_of cur" by auto
    with d assms(2) e have "settled inp st (entry t k)" by auto
  }
  ultimately show "entry t k \<in> set (pq st) \<or> settled inp st (entry t k) \<or> entry t k \<in> {}"
    by blast
qed

lemma invar_close:
  assumes "invar inp st {cur}"
    and "settled inp st cur \<or> dist st (key_of cur) \<noteq> Some (time cur)"
  shows "invar inp st {}"
  using invarD [OF assms(1)] inv_done_close [OF _ assms(2)] by (auto intro: invarI)

lemma pop_invar:
  assumes "invar inp st {}" and "pq st \<noteq> []" and "pop sched st = (cur, st')"
  shows "invar inp st' {cur}" and "reached inp cur" and "covered st' cur"
proof -
  note I = invarD [OF assms(1)]
  note P = pop_facts [OF assms(2,3)]
  have cov: "\<And>x. covered st' x = covered st x" using P(6) by (rule covered_cong)
  have 1: "inv_sound inp st'"
    using I(1) P(3,6) unfolding inv_sound_def by auto
  have 2: "inv_cov inp st'"
    using I(2) P(3) cov unfolding inv_cov_def by auto
  have 3: "inv_done inp st' {cur}"
    unfolding inv_done_def
  proof (intro allI impI)
    fix k t assume "dist st' k = Some t"
    with P(6) have "dist st k = Some t" by simp
    from inv_doneD [OF I(3) this] P(4) settled_mono [of inp st "entry t k" st'] P(6,8)
    show "entry t k \<in> set (pq st') \<or> settled inp st' (entry t k) \<or> entry t k \<in> {cur}"
      by auto
  qed
  have 4: "inv_chain inp st'" using I(4) P(6,7) by (simp add: inv_chain_def)
  have 5: "inv_best inp st'" using I(5) P(6,8,9) by (simp add: inv_best_def)
  from 1 2 3 4 5 show "invar inp st' {cur}" by (rule invarI)
  from I(1) P(1) show "reached inp cur" by (rule inv_sound_pq)
  from I(2) P(1) cov show "covered st' cur" by (simp add: inv_cov_pq)
qed

lemma visit_invar:
  assumes "invar inp st {cur}" and "reached inp cur" and "covered st cur"
  shows "invar inp (visit inp cur st) {}"
proof (cases "stale st cur")
  case True
  then have "dist st (key_of cur) \<noteq> Some (time cur)" by (auto simp: stale_def)
  with assms(1) True show ?thesis by (simp add: visit_def invar_close)
next
  case False
  with assms(3) have d: "dist st (key_of cur) = Some (time cur)"
    by (auto simp: stale_def covered_def)
  show ?thesis
  proof (cases "at_dest inp cur")
    case True
    from visit_dest_invar [OF assms(2,1) d True] False True show ?thesis
      by (simp add: visit_def invar_close)
  next
    case nd: False
    from expand_invar [OF assms(2,1) d nd] False nd show ?thesis
      by (simp add: visit_def invar_close)
  qed
qed

lemma iter_invar:
  assumes "invar inp st {}" and "pq st \<noteq> []"
  shows "invar inp (iter sched inp st) {}"
proof -
  obtain cur st' where p: "pop sched st = (cur, st')" by (cases "pop sched st")
  from pop_invar [OF assms p] have "invar inp (visit inp cur st') {}" by (rule visit_invar)
  with p show ?thesis by (simp add: iter_def)
qed

lemma init_invar: "invar inp (init inp) {}"
proof -
  let ?s = "start_state inp"
  have pq: "pq (init inp) = [?s]" by (simp add: init_def start_state_def Let_def)
  have d: "dist (init inp) = [key_of ?s \<mapsto> time ?s]"
    by (simp add: init_def start_state_def Let_def key_of_def)
  have p: "parent (init inp) = Map.empty" "bestTime (init inp) = INF_const"
    by (simp_all add: init_def Let_def)
  have 1: "inv_sound inp (init inp)"
    unfolding inv_sound_def using pq d reached_start [of inp]
    by (auto split: if_splits)
  have c: "covered (init inp) ?s" using d by (simp add: covered_def)
  with pq have 2: "inv_cov inp (init inp)" by (simp add: inv_cov_def)
  have 3: "inv_done inp (init inp) {}"
    unfolding inv_done_def using pq d by (auto split: if_splits)
  have 4: "inv_chain inp (init inp)"
    unfolding inv_chain_def using d by (auto split: if_splits)
  have 5: "inv_best inp (init inp)" using p by (simp add: inv_best_def)
  from 1 2 3 4 5 show ?thesis by (rule invarI)
qed

subsection \<open>Termination of the search\<close>

lemma inv_sound_dom: "inv_sound inp st \<Longrightarrow> dom (dist st) \<subseteq> universe inp"
proof
  fix k assume s: "inv_sound inp st" and "k \<in> dom (dist st)"
  then obtain t where "dist st k = Some t" by auto
  from reached_universe [OF inv_sound_dist [OF s this]] show "k \<in> universe inp" by simp
qed

lemma inv_sound_low: "inv_sound inp st \<Longrightarrow> dist st k = Some t \<Longrightarrow> height inp ! 0 ! 0 \<le> t"
  using reached_time [OF inv_sound_dist, of inp st k t] by simp

lemma closer_trans: "closer inp a b \<Longrightarrow> closer inp b c \<Longrightarrow> closer inp a c"
  unfolding closer_def by linarith

lemma relax_progress:
  assumes "inv_sound inp st" and "reached inp e"
  shows "relax k e st = st \<or> closer inp (relax k e st) st"
proof (cases rule: relax_cases [of k e st])
  case same
  then show ?thesis by simp
next
  case push
  let ?st = "relax k e st"
  let ?L = "height inp ! 0 ! 0"
  have dist': "dist ?st = (dist st)(key_of e \<mapsto> time e)" using push(2) by simp
  have fin: "finite (dom (dist st))"
    using inv_sound_dom [OF assms(1)] finite_universe by (rule finite_subset)
  have ke: "key_of e \<in> universe inp" using assms(2) by (rule reached_universe)
  have lo: "?L \<le> time e" using assms(2) by (rule reached_time)
  show ?thesis
  proof (cases "dist st (key_of e)")
    case None
    then have "key_of e \<in> universe inp - dom (dist st)" using ke by auto
    moreover have "universe inp - dom (dist ?st) = (universe inp - dom (dist st)) - {key_of e}"
      using dist' by auto
    moreover have "finite (universe inp - dom (dist st))" using finite_universe by simp
    ultimately have "unseen inp ?st < unseen inp st"
      unfolding unseen_def using card_Diff1_less [of "universe inp - dom (dist st)" "key_of e"]
      by simp
    then show ?thesis by (simp add: closer_def)
  next
    case (Some t0)
    with push(1) have lt: "time e < t0" by simp
    from Some have mem: "key_of e \<in> dom (dist st)" by auto
    then have dom': "dom (dist ?st) = dom (dist st)" using dist' by auto
    then have u: "unseen inp ?st = unseen inp st" by (simp add: unseen_def)
    let ?g = "\<lambda>k. nat (the (dist st k) - ?L)"
    let ?g' = "\<lambda>k. nat (the (dist ?st k) - ?L)"
    have rest: "sum ?g' (dom (dist st) - {key_of e}) = sum ?g (dom (dist st) - {key_of e})"
      by (rule sum.cong) (simp_all add: dist')
    have "slack inp ?st = ?g' (key_of e) + sum ?g' (dom (dist st) - {key_of e})"
      unfolding slack_def dom' using fin mem by (rule sum.remove)
    moreover have "slack inp st = ?g (key_of e) + sum ?g (dom (dist st) - {key_of e})"
      unfolding slack_def using fin mem by (rule sum.remove)
    moreover have "?g' (key_of e) < ?g (key_of e)"
      using lt lo Some by (simp add: dist')
    ultimately have "slack inp ?st < slack inp st" using rest by linarith
    with u show ?thesis by (simp add: closer_def)
  qed
qed

lemma relax_dir_progress:
  assumes "inv_sound inp st" and "reached inp cur" and "d \<in> set dirs"
  shows "relax_dir inp cur d st = st \<or> closer inp (relax_dir inp cur d st) st"
    and "inv_sound inp (relax_dir inp cur d st)"
proof -
  show "relax_dir inp cur d st = st \<or> closer inp (relax_dir inp cur d st) st"
  proof (cases "move inp cur d")
    case None
    then show ?thesis by (simp add: relax_dir_def)
  next
    case (Some e)
    from assms(2,3) Some have "reached inp e" by (rule reached_step)
    from relax_progress [OF assms(1) this, of "key_of cur"] Some show ?thesis
      by (simp add: relax_dir_def)
  qed
  show "inv_sound inp (relax_dir inp cur d st)"
  proof (cases "move inp cur d")
    case None
    with assms(1) show ?thesis by (simp add: relax_dir_def)
  next
    case (Some e)
    from assms(2,3) Some have "reached inp e" by (rule reached_step)
    from inv_sound_relax [OF assms(1) this, of "key_of cur"] Some show ?thesis
      by (simp add: relax_dir_def)
  qed
qed

lemma fold_relax_progress:
  assumes "reached inp cur"
  shows "set ds \<subseteq> set dirs \<Longrightarrow> inv_sound inp st \<Longrightarrow>
     fold (relax_dir inp cur) ds st = st \<or> closer inp (fold (relax_dir inp cur) ds st) st"
proof (induction ds arbitrary: st)
  case Nil
  then show ?case by simp
next
  case (Cons d ds)
  from Cons.prems(1) have d: "d \<in> set dirs" and ds: "set ds \<subseteq> set dirs" by simp_all
  let ?s1 = "relax_dir inp cur d st"
  let ?s2 = "fold (relax_dir inp cur) ds ?s1"
  note 1 = relax_dir_progress [OF Cons.prems(2) assms d]
  from Cons.IH [OF ds 1(2)] have 2: "?s2 = ?s1 \<or> closer inp ?s2 ?s1" .
  from 1(1) 2 have "?s2 = st \<or> closer inp ?s2 st"
    by (metis closer_trans)
  then show ?case by simp
qed

lemma wf_progress: "wf (progress inp)"
  unfolding progress_def by (intro wf_inv_image wf_lex_prod wf_less_than)

lemma progressI:
  assumes "closer inp st' st \<or> (dist st' = dist st \<and> length (pq st') < length (pq st))"
  shows "(st', st) \<in> progress inp"
  using assms unfolding progress_def closer_def unseen_def slack_def by auto

lemma visit_progress:
  assumes "inv_sound inp st" and "reached inp cur"
  shows "closer inp (visit inp cur st) st
     \<or> (dist (visit inp cur st) = dist st \<and> pq (visit inp cur st) = pq st)"
proof -
  from fold_relax_progress [OF assms(2) subset_refl assms(1)]
  have "expand inp cur st = st \<or> closer inp (expand inp cur st) st"
    by (simp add: expand_def)
  then show ?thesis by (auto simp: visit_def)
qed

lemma iter_progress:
  assumes "invar inp st {}" and "pq st \<noteq> []"
  shows "(iter sched inp st, st) \<in> progress inp"
proof -
  obtain cur st' where p: "pop sched st = (cur, st')" by (cases "pop sched st")
  note P = pop_facts [OF assms(2) p]
  note I = pop_invar [OF assms p]
  from visit_progress [OF invarD(1) [OF I(1)] I(2)]
  have v: "closer inp (visit inp cur st') st'
     \<or> (dist (visit inp cur st') = dist st' \<and> pq (visit inp cur st') = pq st')" .
  have eq: "unseen inp st' = unseen inp st" "slack inp st' = slack inp st"
    using P(6) by (simp_all add: unseen_def slack_def)
  from v have "closer inp (visit inp cur st') st
     \<or> (dist (visit inp cur st') = dist st \<and> length (pq (visit inp cur st')) < length (pq st))"
  proof
    assume "closer inp (visit inp cur st') st'"
    with eq show ?thesis by (simp add: closer_def)
  next
    assume "dist (visit inp cur st') = dist st' \<and> pq (visit inp cur st') = pq st'"
    with P(5,6) show ?thesis by auto
  qed
  then have "(visit inp cur st', st) \<in> progress inp" by (rule progressI)
  with p show ?thesis by (simp add: iter_def)
qed

lemma loop_total:
  assumes "invar inp st {}" and "P st"
    and step: "\<And>s. invar inp s {} \<Longrightarrow> P s \<Longrightarrow> pq s \<noteq> [] \<Longrightarrow> P (iter sched inp s)"
  shows "\<exists>st'. loop sched inp st = Some st' \<and> invar inp st' {} \<and> pq st' = [] \<and> P st'"
  using assms(1,2)
proof (induction st rule: wf_induct_rule [OF wf_progress [of inp]])
  case (1 st)
  show ?case
  proof (cases "pq st = []")
    case True
    with 1(2,3) show ?thesis by (subst loop.simps) simp
  next
    case False
    from 1(2) False have a: "(iter sched inp st, st) \<in> progress inp" by (rule iter_progress)
    from 1(2) False have b: "invar inp (iter sched inp st) {}" by (rule iter_invar)
    from 1(2,3) False have c: "P (iter sched inp st)" by (rule step)
    from 1(1) [OF a b c] False show ?thesis by (subst loop.simps) simp
  qed
qed

lemma search_total:
  "\<exists>st'. loop sched inp (init inp) = Some st' \<and> invar inp st' {} \<and> pq st' = []"
  using loop_total [OF init_invar, where P = "\<lambda>_. True" and sched = sched] by simp

subsection \<open>The reconstruction ends and follows edges\<close>

lemma step_of_simps [simp]:
  "step_key (step_of st k) = k"
  "cell (step_of st k) = (fst k, fst (snd k))"
  "step_time (step_of st k) = dist_at st k"
  "step_battery (step_of st k) = fst (snd (snd k))"
  "step_altitude (step_of st k) = snd (snd (snd k))"
  by (cases k; simp add: step_of_def step_key_def cell_def step_time_def step_battery_def
      step_altitude_def)+

lemma start_key_cell: "fst (key_of (start_state inp)) = 0 \<and> fst (snd (key_of (start_state inp))) = 0"
  by (simp add: key_of_def start_state_def)

lemma backtrack_total:
  assumes "inv_sound inp st" and "inv_chain inp st"
  shows "dist st k = Some t \<Longrightarrow>
    \<exists>p. backtrack st k acc = Some (acc @ p) \<and> p \<noteq> [] \<and> hd p = step_of st k
       \<and> cell (last p) = (0, 0)
       \<and> successively (\<lambda>a b. edge inp (step_key b) (step_key a)) p
       \<and> (\<forall>a \<in> set p. a = step_of st (step_key a) \<and> step_key a \<in> dom (dist st))"
proof (induction "nat (t - height inp ! 0 ! 0)" arbitrary: k t acc rule: less_induct)
  case less
  let ?x = "step_of st k"
  from less.prems have kd: "k \<in> dom (dist st)" by auto
  show ?case
  proof (cases "fst k = 0 \<and> fst (snd k) = 0")
    case True
    then have "backtrack st k acc = Some (acc @ [?x])"
      by (subst backtrack.simps) (simp add: Let_def)
    with True kd show ?thesis by simp
  next
    case False
    with start_key_cell [of inp] have "k \<noteq> key_of (start_state inp)" by auto
    from inv_chainD [OF assms(2) less.prems this]
    obtain p tp where p: "parent st k = Some p" "dist st p = Some tp" "tp < t" "edge inp p k"
      by blast
    from inv_sound_low [OF assms(1) p(2)] p(3)
    have "nat (tp - height inp ! 0 ! 0) < nat (t - height inp ! 0 ! 0)" by simp
    from less.hyps [OF this p(2), of "acc @ [?x]"]
    obtain q where q: "backtrack st p (acc @ [?x]) = Some ((acc @ [?x]) @ q)" "q \<noteq> []"
      "hd q = step_of st p" "cell (last q) = (0, 0)"
      "successively (\<lambda>a b. edge inp (step_key b) (step_key a)) q"
      "\<forall>a \<in> set q. a = step_of st (step_key a) \<and> step_key a \<in> dom (dist st)"
      by blast
    from p(1) have "parent_at st k = p" by (simp add: parent_at_def)
    with False q(1) have 1: "backtrack st k acc = Some (acc @ ?x # q)"
      by (subst backtrack.simps) (auto simp: Let_def)
    from q(2,3,5) p(4)
    have 2: "successively (\<lambda>a b. edge inp (step_key b) (step_key a)) (?x # q)"
      by (simp add: successively_Cons)
    from q(2,4) have 3: "cell (last (?x # q)) = (0, 0)" by simp
    from q(6) kd have 4: "\<forall>a \<in> set (?x # q). a = step_of st (step_key a) \<and> step_key a \<in> dom (dist st)"
      by simp
    from 1 2 3 4 show ?thesis by (intro exI [of _ "?x # q"]) simp
  qed
qed

subsection \<open>What the final state knows\<close>

lemma final_bound:
  assumes "invar inp st {}" and "pq st = []" and "reached inp s"
  shows "covered st s \<or> bestTime st \<le> time s"
  using assms(3)
proof (induction rule: reached_induct)
  case start
  from invarD(2) [OF assms(1)] show ?case by (simp add: inv_cov_start)
next
  case (step s d e)
  from step.hyps(3) have lt: "time s < time e" by (rule move_time)
  from step.IH show ?case
  proof
    assume "bestTime st \<le> time s"
    with lt show ?thesis by simp
  next
    assume "covered st s"
    then obtain t where t: "dist st (key_of s) = Some t" "t \<le> time s"
      by (auto simp: covered_def)
    from inv_doneD [OF invarD(3) [OF assms(1)] t(1)] assms(2)
    have se: "settled inp st (entry t (key_of s))" by simp
    show ?thesis
    proof (cases "at_dest inp (entry t (key_of s))")
      case True
      with se have "bestTime st \<le> t" by (simp add: settled_def)
      with t(2) lt show ?thesis by simp
    next
      case False
      from move_shift [OF step.hyps(3), of "entry t (key_of s)"]
      obtain e' where e': "move inp (entry t (key_of s)) d = Some e'" "key_of e' = key_of e"
        "time e' = t + (time e - time s)" by auto
      from se False step.hyps(2) e'(1) have "covered st e'" by (simp add: settled_def)
      with e'(2,3) t(2) have "covered st e" by (auto simp: covered_def)
      then show ?thesis ..
    qed
  qed
qed

lemma final_arrival:
  assumes "invar inp st {}" and "pq st = []" and "reached inp s" and "at_dest inp s"
  shows "bestTime st \<le> time s"
proof -
  from final_bound [OF assms(1-3)] show ?thesis
  proof
    assume "covered st s"
    then obtain t where t: "dist st (key_of s) = Some t" "t \<le> time s"
      by (auto simp: covered_def)
    from inv_doneD [OF invarD(3) [OF assms(1)] t(1)] assms(2)
    have "settled inp st (entry t (key_of s))" by simp
    moreover from assms(4) have "at_dest inp (entry t (key_of s))"
      by (simp add: at_dest_key [of "entry t (key_of s)" s])
    ultimately have "bestTime st \<le> t" by (simp add: settled_def)
    with t(2) show ?thesis by simp
  qed
qed

lemma final_best:
  assumes "invar inp st {}" and "pq st = []" and "bestTime st < INF_const"
  shows "dist st (bestState st) = Some (bestTime st)"
    and "reached inp (entry (bestTime st) (bestState st))"
    and "at_dest inp (entry (bestTime st) (bestState st))"
proof -
  from inv_bestD [OF invarD(5) [OF assms(1)] assms(3)]
  obtain t where t: "dist st (bestState st) = Some t" "t \<le> bestTime st"
    and r: "reached inp (entry (bestTime st) (bestState st))"
    and a: "at_dest inp (entry (bestTime st) (bestState st))" by blast
  from r show "reached inp (entry (bestTime st) (bestState st))" .
  from a show "at_dest inp (entry (bestTime st) (bestState st))" .
  from inv_sound_dist [OF invarD(1) [OF assms(1)] t(1)]
  have "reached inp (entry t (bestState st))" .
  moreover from a have "at_dest inp (entry t (bestState st))"
    by (simp add: at_dest_key [of "entry t (bestState st)" "entry (bestTime st) (bestState st)"])
  ultimately have "bestTime st \<le> time (entry t (bestState st))"
    by (rule final_arrival [OF assms(1,2)])
  with t show "dist st (bestState st) = Some (bestTime st)" by simp
qed

subsection \<open>Arrival costs\<close>

lemma arrival_cost_iff:
  "arrival_cost inp ds = Some c \<longleftrightarrow>
     (\<exists>s. fly inp (start_state inp) ds = Some s \<and> at_dest inp s
        \<and> c = time s - height inp ! 0 ! 0)"
  by (auto simp: arrival_cost_def route_cost_fly start_state_def split: option.splits)

lemma arrival_reached:
  "arrival_cost inp ds = Some c \<Longrightarrow>
     \<exists>s. reached inp s \<and> at_dest inp s \<and> time s = height inp ! 0 ! 0 + c"
  unfolding arrival_cost_iff reached_def by force

lemma reached_arrival:
  "reached inp s \<Longrightarrow> at_dest inp s \<Longrightarrow>
     \<exists>ds. arrival_cost inp ds = Some (time s - height inp ! 0 ! 0)"
  unfolding arrival_cost_iff reached_def by blast

lemma arrival_cost_nonneg: "arrival_cost inp ds = Some c \<Longrightarrow> 0 \<le> c"
  using arrival_reached [of inp ds c] reached_time [of inp] by fastforce

lemma least_cost_exists:
  assumes "arrival_cost inp ds = Some c"
  shows "\<exists>c'. least_cost inp c'"
proof -
  let ?P = "\<lambda>n. \<exists>ds c. arrival_cost inp ds = Some c \<and> nat c = n"
  from assms have ex: "?P (nat c)" by blast
  from LeastI [of ?P, OF ex] obtain ds0 c0 where
    0: "arrival_cost inp ds0 = Some c0" "nat c0 = (LEAST n. ?P n)" by blast
  have "\<forall>ds' c'. arrival_cost inp ds' = Some c' \<longrightarrow> c0 \<le> c'"
  proof (intro allI impI)
    fix ds' c' assume a: "arrival_cost inp ds' = Some c'"
    then have "?P (nat c')" by blast
    then have "(LEAST n. ?P n) \<le> nat c'" by (rule Least_le)
    with 0(2) arrival_cost_nonneg [OF a] arrival_cost_nonneg [OF 0(1)] show "c0 \<le> c'" by simp
  qed
  with 0(1) show ?thesis unfolding least_cost_def by blast
qed

section \<open>The result of the search\<close>

subsection \<open>The reported path\<close>

lemma edge_adjacent:
  assumes "edge inp (step_key a) (step_key b)"
  shows "adjacent a b" and "step_altitude a \<le> step_altitude b"
proof -
  from assms obtain d e where d: "d \<in> set dirs"
    and m: "move inp (entry 0 (step_key a)) d = Some e" and k: "key_of e = step_key b"
    unfolding edge_def by blast
  obtain r c b1 a1 t1 where a: "a = (r, c, b1, a1, t1)" by (cases a)
  obtain r' c' b2 a2 t2 where b: "b = (r', c', b2, a2, t2)" by (cases b)
  from move_adjacent [OF d m] k a b
  show "adjacent a b" and "step_altitude a \<le> step_altitude b"
    by (simp_all add: adjacent_def step_altitude_def step_key_def key_of_def entry_def)
qed

lemma report_path:
  assumes "invar inp st {}" and "pq st = []" and "bestTime st < INF_const"
  shows "\<exists>path. report st = Some (Found (bestTime st) path) \<and> path \<noteq> []
     \<and> cell (hd path) = (0, 0) \<and> cell (last path) = (N inp - 1, M inp - 1)
     \<and> step_time (last path) = bestTime st
     \<and> successively (\<lambda>a b. edge inp (step_key a) (step_key b)) path
     \<and> (\<forall>a \<in> set path. a = step_of st (step_key a) \<and> step_key a \<in> dom (dist st))"
proof -
  note F = final_best [OF assms]
  from backtrack_total [OF invarD(1) [OF assms(1)] invarD(4) [OF assms(1)] F(1), of "[]"]
  obtain p where p: "backtrack st (bestState st) [] = Some p" "p \<noteq> []"
    "hd p = step_of st (bestState st)" "cell (last p) = (0, 0)"
    "successively (\<lambda>a b. edge inp (step_key b) (step_key a)) p"
    "\<forall>a \<in> set p. a = step_of st (step_key a) \<and> step_key a \<in> dom (dist st)"
    by auto
  from assms(3) p(1) have 1: "report st = Some (Found (bestTime st) (rev p))"
    by (simp add: report_def)
  from p(2) have 2: "rev p \<noteq> []" "hd (rev p) = last p" "last (rev p) = hd p"
    by (simp_all add: hd_rev last_rev)
  obtain r c b a where k: "bestState st = (r, c, b, a)" by (cases "bestState st")
  from F(3) k have "r = N inp - 1 \<and> c = M inp - 1" by (simp add: at_dest_def entry_def)
  with k have 3: "cell (step_of st (bestState st)) = (N inp - 1, M inp - 1)" by simp
  from F(1) have 4: "step_time (step_of st (bestState st)) = bestTime st"
    by (simp add: dist_at_def)
  from p(5) have 5: "successively (\<lambda>a b. edge inp (step_key a) (step_key b)) (rev p)"
    by simp
  from p(6) have 6: "\<forall>a \<in> set (rev p). a = step_of st (step_key a) \<and> step_key a \<in> dom (dist st)"
    by simp
  from 1 2 3 4 5 6 p(3,4) show ?thesis by (intro exI [of _ "rev p"]) simp
qed

lemma successively_edge_adjacent:
  assumes "successively (\<lambda>a b. edge inp (step_key a) (step_key b)) path"
  shows "successively adjacent path"
    and "successively (\<lambda>a b. step_altitude a \<le> step_altitude b) path"
  using assms by (auto elim!: successively_mono dest: edge_adjacent)

lemma solve_final:
  obtains st where "loop sched inp (init inp) = Some st" and "invar inp st {}"
    and "pq st = []" and "solve sched inp = report st"
proof -
  from search_total [of sched inp] obtain st where
    st: "loop sched inp (init inp) = Some st" "invar inp st {}" "pq st = []" by blast
  then have "solve sched inp = report st" by (simp add: solve_def)
  with st show ?thesis by (rule that)
qed

text \<open>What holds of every reported path, also of one that starts at a later visit of the origin.\<close>

lemma reported_path_climbs:
  assumes "solve sched inp = Some (Found t path)"
  shows "successively (\<lambda>a b. step_altitude a \<le> step_altitude b) path"
    and "successively adjacent path"
    and "cell (hd path) = (0, 0)"
    and "height inp ! 0 ! 0 \<le> step_altitude (hd path)"
proof -
  obtain st where st: "invar inp st {}" "pq st = []" "solve sched inp = report st"
    by (rule solve_final)
  from assms st(3) have "bestTime st \<noteq> INF_const" by (auto simp: report_def split: if_splits)
  with inv_best_le [OF invarD(5) [OF st(1)]] have "bestTime st < INF_const" by simp
  from report_path [OF st(1,2) this] assms st(3)
  have p: "path \<noteq> []" "cell (hd path) = (0, 0)"
    "successively (\<lambda>a b. edge inp (step_key a) (step_key b)) path"
    "\<forall>a \<in> set path. a = step_of st (step_key a) \<and> step_key a \<in> dom (dist st)"
    by auto
  from successively_edge_adjacent [OF p(3)]
  show "successively (\<lambda>a b. step_altitude a \<le> step_altitude b) path"
    and "successively adjacent path" by simp_all
  from p(2) show "cell (hd path) = (0, 0)" .
  from p(1,4) obtain t' where a: "dist st (step_key (hd path)) = Some t'" by fastforce
  from inv_sound_dist [OF invarD(1) [OF st(1)] a]
  have r: "reached inp (entry t' (step_key (hd path)))" .
  have "height inp ! 0 ! 0 \<le> altitude s" if "reached inp s" for s
    using that
  proof (induction rule: reached_induct)
    case start
    show ?case by (simp add: start_state_def)
  next
    case (step s d e)
    from move_adjacent [OF step.hyps(2,3)] step.IH show ?case by simp
  qed
  from this [OF r] show "height inp ! 0 ! 0 \<le> step_altitude (hd path)"
    by (cases "hd path") (simp add: entry_def step_key_def step_altitude_def)
qed

lemma final_least:
  assumes "invar inp st {}" and "pq st = []" and "least_cost inp c"
  shows "if height inp ! 0 ! 0 + c < INF_const
         then bestTime st = height inp ! 0 ! 0 + c else bestTime st = INF_const"
proof -
  let ?h = "height inp ! 0 ! 0"
  from assms(3) obtain ds where ds: "arrival_cost inp ds = Some c"
    and least: "\<And>ds' c'. arrival_cost inp ds' = Some c' \<Longrightarrow> c \<le> c'"
    unfolding least_cost_def by blast
  from arrival_reached [OF ds] obtain s where s: "reached inp s" "at_dest inp s"
    "time s = ?h + c" by blast
  from final_arrival [OF assms(1,2) s(1,2)] s(3) have ub: "bestTime st \<le> ?h + c" by simp
  have lb: "?h + c \<le> bestTime st" if "bestTime st < INF_const"
  proof -
    note F = final_best [OF assms(1,2) that]
    from reached_arrival [OF F(2,3)] obtain ds' where
      "arrival_cost inp ds' = Some (bestTime st - ?h)" by auto
    from least [OF this] show ?thesis by simp
  qed
  from inv_best_le [OF invarD(5) [OF assms(1)]] have le: "bestTime st \<le> INF_const" .
  show ?thesis
  proof (cases "?h + c < INF_const")
    case True
    with ub have "bestTime st < INF_const" by simp
    from lb [OF this] ub True show ?thesis by simp
  next
    case False
    have "bestTime st = INF_const"
    proof (rule ccontr)
      assume "bestTime st \<noteq> INF_const"
      with le have "bestTime st < INF_const" by simp
      from lb [OF this] this False show False by simp
    qed
    with False show ?thesis by simp
  qed
qed

text \<open>The result of the exact search.\<close>

lemma exact_least_time:
  assumes "grid_ok inp" and "arrival_cost inp ds = Some c0"
  shows "\<exists>c. least_cost inp c \<and>
     (if height inp ! 0 ! 0 + c < INF_const
      then \<exists>path. solve sched inp = Some (Found (height inp ! 0 ! 0 + c) path)
             \<and> path \<noteq> [] \<and> cell (hd path) = (0, 0)
             \<and> cell (last path) = (N inp - 1, M inp - 1)
             \<and> successively adjacent path
      else solve sched inp = Some No_path)"
proof -
  from least_cost_exists [OF assms(2)] obtain c where c: "least_cost inp c" ..
  obtain st where st: "invar inp st {}" "pq st = []" "solve sched inp = report st"
    by (rule solve_final)
  note L = final_least [OF st(1,2) c]
  show ?thesis
  proof (cases "height inp ! 0 ! 0 + c < INF_const")
    case True
    with L have b: "bestTime st = height inp ! 0 ! 0 + c" by simp
    with True have "bestTime st < INF_const" by simp
    from report_path [OF st(1,2) this] obtain path where
      p: "report st = Some (Found (bestTime st) path)" "path \<noteq> []" "cell (hd path) = (0, 0)"
      "cell (last path) = (N inp - 1, M inp - 1)"
      "successively (\<lambda>a b. edge inp (step_key a) (step_key b)) path" by blast
    from successively_edge_adjacent(1) [OF p(5)] p(1-4) b st(3) True c show ?thesis
      by auto
  next
    case False
    with L have "bestTime st = INF_const" by simp
    then have "report st = Some No_path" by (simp add: report_def)
    with st(3) False c show ?thesis by auto
  qed
qed





section \<open>Battery bounds and the early stop\<close>

subsection \<open>The states of a run keep the invariant\<close>

lemma state_after_invar:
  "invar inp st0 {} \<Longrightarrow> state_after sched inp n st0 = Some st \<Longrightarrow> invar inp st {}"
proof (induction n arbitrary: st0)
  case 0
  then show ?case by simp
next
  case (Suc n)
  from Suc.prems(2) have ne: "pq st0 \<noteq> []"
    and nx: "state_after sched inp n (iter sched inp st0) = Some st"
    by (auto split: if_splits)
  from Suc.prems(1) ne have "invar inp (iter sched inp st0) {}" by (rule iter_invar)
  from Suc.IH [OF this nx] show ?case .
qed

lemma battery_entry: "battery (entry t k) = fst (snd (snd k))"
  by (cases k) (simp add: entry_def)

text \<open>The battery bounds of the exact search.\<close>

lemma exact_battery_bounds:
  assumes "grid_ok inp" and "0 \<le> B inp" and "0 \<le> K inp"
  shows "(\<forall>n st e. state_after sched inp n (init inp) = Some st \<longrightarrow> e \<in> set (pq st) \<longrightarrow>
            0 \<le> battery e \<and> battery e \<le> B inp)
     \<and> (\<forall>t path p. solve sched inp = Some (Found t path) \<longrightarrow> p \<in> set path \<longrightarrow>
            0 \<le> step_battery p \<and> step_battery p \<le> B inp)
     \<and> (\<forall>cur d. fst (snd (advance inp cur (row cur + fst d) (col cur + snd d))) < 0 \<longrightarrow>
            move inp cur d = None)"
proof -
  have 1: "0 \<le> battery e \<and> battery e \<le> B inp"
    if sa: "state_after sched inp n (init inp) = Some st" and e: "e \<in> set (pq st)" for n st e
  proof -
    from state_after_invar [OF init_invar sa] have "invar inp st {}" .
    from inv_sound_pq [OF invarD(1) [OF this] e] have "reached inp e" .
    with assms(2,3) show ?thesis by (rule reached_battery)
  qed
  have 2: "0 \<le> step_battery p \<and> step_battery p \<le> B inp"
    if s: "solve sched inp = Some (Found t path)" and p: "p \<in> set path" for t path p
  proof -
    obtain st where st: "invar inp st {}" "pq st = []" "solve sched inp = report st"
      by (rule solve_final)
    from s st(3) have "bestTime st \<noteq> INF_const" by (auto simp: report_def split: if_splits)
    with inv_best_le [OF invarD(5) [OF st(1)]] have "bestTime st < INF_const" by simp
    from report_path [OF st(1,2) this] s st(3)
    have "\<forall>a \<in> set path. a = step_of st (step_key a) \<and> step_key a \<in> dom (dist st)" by auto
    with p obtain t' where a: "p = step_of st (step_key p)" "dist st (step_key p) = Some t'"
      by auto
    from inv_sound_dist [OF invarD(1) [OF st(1)] a(2)]
    have "reached inp (entry t' (step_key p))" .
    from reached_battery [OF assms(2,3) this]
    have "0 \<le> fst (snd (snd (step_key p))) \<and> fst (snd (snd (step_key p))) \<le> B inp"
      by (simp add: battery_entry)
    moreover from a(1) have "step_battery p = fst (snd (snd (step_key p)))"
      by (metis step_of_simps(4))
    ultimately show ?thesis by simp
  qed
  have 3: "move inp cur d = None"
    if "fst (snd (advance inp cur (row cur + fst d) (col cur + snd d))) < 0" for cur d
    using that by (auto simp: move_def Let_def split: prod.splits)
  from 1 2 3 show ?thesis by blast
qed

subsection \<open>Draining the queue after the first arrival\<close>


lemma relax_dir_best [simp]: "bestTime (relax_dir inp cur d st) = bestTime st"
  by (cases "move inp cur d") (simp_all add: relax_dir_def)


lemma fold_relax_best [simp]: "bestTime (fold (relax_dir inp cur) ds st) = bestTime st"
  by (induction ds arbitrary: st) simp_all







section \<open>The 64-bit arithmetic\<close>

subsection \<open>Moves that do not overflow\<close>

lemma wrap_fits: "fits x \<Longrightarrow> wrap x = x"
  by (simp add: fits_def wrap_def LLONG_MAX_def)

lemma advance_ll_exact:
  assumes "fits (time cur + 1)" and "fits (battery cur - 1)"
    and "height inp ! nat nr ! nat nc > altitude cur \<Longrightarrow>
         fits (height inp ! nat nr ! nat nc - altitude cur)
         \<and> fits (time cur + 1 + (height inp ! nat nr ! nat nc - altitude cur))
         \<and> fits (battery cur - 1 - (height inp ! nat nr ! nat nc - altitude cur))"
  shows "advance_ll inp cur nr nc = advance inp cur nr nc"
  using assms by (auto simp: advance_ll_def advance_def Let_def wrap_fits)

lemma move_ll_exact:
  assumes "exact_move inp cur d"
  shows "move_ll inp cur d = move inp cur d"
proof (cases "row cur + fst d < 0 \<or> row cur + fst d \<ge> N inp \<or> col cur + snd d < 0
    \<or> col cur + snd d \<ge> M inp")
  case True
  then show ?thesis by (simp add: move_ll_def move_def Let_def)
next
  case False
  let ?nr = "row cur + fst d" and ?nc = "col cur + snd d"
  from assms False have a: "fits (time cur + 1)" "fits (battery cur - 1)"
    "height inp ! nat ?nr ! nat ?nc > altitude cur \<Longrightarrow>
         fits (height inp ! nat ?nr ! nat ?nc - altitude cur)
         \<and> fits (time cur + 1 + (height inp ! nat ?nr ! nat ?nc - altitude cur))
         \<and> fits (battery cur - 1 - (height inp ! nat ?nr ! nat ?nc - altitude cur))"
    by (simp_all add: exact_move_def Let_def)
  then have adv: "advance_ll inp cur ?nr ?nc = advance inp cur ?nr ?nc"
    by (rule advance_ll_exact)
  obtain nt nb newAlt where v: "advance inp cur ?nr ?nc = (nt, nb, newAlt)"
    by (cases "advance inp cur ?nr ?nc")
  from assms False v have k: "0 \<le> nb \<and> (?nr, ?nc) \<in> recharge inp \<Longrightarrow> fits (nb + K inp)"
    by (simp add: exact_move_def Let_def)
  from False adv v k show ?thesis
    by (auto simp: move_ll_def move_def Let_def wrap_fits)
qed

lemma relax_dir_ll_exact:
  "exact_move inp cur d \<Longrightarrow> relax_dir_ll inp cur d st = relax_dir inp cur d st"
  by (simp add: relax_dir_ll_def relax_dir_def move_ll_exact)

lemma expand_ll_exact:
  assumes "list_all (exact_move inp cur) dirs"
  shows "expand_ll inp cur st = expand inp cur st"
proof -
  have "fold (relax_dir_ll inp cur) ds s = fold (relax_dir inp cur) ds s"
    if "list_all (exact_move inp cur) ds" for ds s
    using that by (induction ds arbitrary: s) (simp_all add: relax_dir_ll_exact)
  from this [OF assms] show ?thesis by (simp add: expand_ll_def expand_def)
qed

lemma iter_ll_exact:
  assumes "exact_round sched inp st"
  shows "iter_ll sched inp st = iter sched inp st"
proof -
  obtain cur st' where p: "pop sched st = (cur, st')" by (cases "pop sched st")
  with assms have "stale st' cur \<or> at_dest inp cur \<or> list_all (exact_move inp cur) dirs"
    by (simp add: exact_round_def)
  then have "visit_ll inp cur st' = visit inp cur st'"
    by (auto simp: visit_ll_def visit_def expand_ll_exact)
  with p show ?thesis by (simp add: iter_ll_def iter_def)
qed

subsection \<open>The checked loop ends, with an overflow or with the result of the exact loop\<close>

lemma loop_ck_total:
  assumes "invar inp st {}"
  shows "\<exists>r. loop_ck sched inp st = Some r
           \<and> (r = Overflowed \<or> (\<exists>st'. r = Done st' \<and> loop sched inp st = Some st'))"
  using assms
proof (induction st rule: wf_induct_rule [OF wf_progress [of inp]])
  case (1 st)
  show ?case
  proof (cases "pq st = []")
    case True
    then have "loop_ck sched inp st = Some (Done st)" by (subst loop_ck.simps) simp
    moreover from True have "loop sched inp st = Some st" by (subst loop.simps) simp
    ultimately show ?thesis by simp
  next
    case False
    show ?thesis
    proof (cases "exact_round sched inp st")
      case ovf: False
      with False have "loop_ck sched inp st = Some Overflowed"
        by (subst loop_ck.simps) simp
      then show ?thesis by simp
    next
      case True
      then have it: "iter_ll sched inp st = iter sched inp st" by (rule iter_ll_exact)
      from False True have 1: "loop_ck sched inp st = loop_ck sched inp (iter sched inp st)"
        by (subst loop_ck.simps) (simp add: it)
      from False have 2: "loop sched inp st = loop sched inp (iter sched inp st)"
        by (subst loop.simps) simp
      from "1.prems" False have a: "(iter sched inp st, st) \<in> progress inp"
        by (rule iter_progress)
      from "1.prems" False have b: "invar inp (iter sched inp st) {}" by (rule iter_invar)
      from "1.IH" [OF a b] 1 2 show ?thesis by simp
    qed
  qed
qed

lemma report_total:
  assumes "invar inp st {}" and "pq st = []"
  shows "\<exists>res. report st = Some res"
proof (cases "bestTime st = INF_const")
  case True
  then show ?thesis by (simp add: report_def)
next
  case False
  with inv_best_le [OF invarD(5) [OF assms(1)]] have "bestTime st < INF_const" by simp
  from report_path [OF assms this] show ?thesis by blast
qed

lemma solve_ck_total:
  "\<exists>r. solve_ck sched inp = Some r
      \<and> (r = Overflowed \<or> (\<exists>res. r = Done res \<and> solve sched inp = Some res))"
proof -
  from loop_ck_total [OF init_invar, of sched inp] obtain r where
    r: "loop_ck sched inp (init inp) = Some r"
    "r = Overflowed \<or> (\<exists>st'. r = Done st' \<and> loop sched inp (init inp) = Some st')" by blast
  from r(2) show ?thesis
  proof
    assume "r = Overflowed"
    with r(1) show ?thesis by (simp add: solve_ck_def)
  next
    assume "\<exists>st'. r = Done st' \<and> loop sched inp (init inp) = Some st'"
    then obtain st' where s: "r = Done st'" "loop sched inp (init inp) = Some st'" by blast
    obtain st where st: "loop sched inp (init inp) = Some st" "invar inp st {}" "pq st = []"
      "solve sched inp = report st" by (rule solve_final)
    from s(2) st(1) have "st' = st" by simp
    from report_total [OF st(2,3)] obtain res where res: "report st = Some res" ..
    with r(1) s(1) \<open>st' = st\<close> st(4) show ?thesis by (simp add: solve_ck_def)
  qed
qed

lemma solve_ck_Done: "solve_ck sched inp = Some (Done res) \<Longrightarrow> solve sched inp = Some res"
  using solve_ck_total [of sched inp] by auto

subsection \<open>Runs without overflow\<close>

lemma grid_cell:
  assumes "grid_ok inp" and "list_all (list_all P) (height inp)"
    and "0 \<le> r" "r < N inp" "0 \<le> c" "c < M inp"
  shows "P (height inp ! nat r ! nat c)"
proof -
  from assms(1,3,4) have "int (nat r) < int (length (height inp))" by (simp add: grid_ok_def)
  then have r: "nat r < length (height inp)" by (simp only: of_nat_less_iff)
  with assms(1) have "int (length (height inp ! nat r)) = M inp"
    by (simp add: grid_ok_def list_all_length)
  with assms(5,6) have "int (nat c) < int (length (height inp ! nat r))" by simp
  then have c: "nat c < length (height inp ! nat r)" by (simp only: of_nat_less_iff)
  from assms(2) r have "list_all P (height inp ! nat r)" by (simp add: list_all_length)
  with c show ?thesis by (simp add: list_all_length)
qed

lemma short_run_reached:
  assumes "grid_ok inp" and "short_run inp" and "reached inp s"
  shows "time s + battery s = height inp ! 0 ! 0 + B inp \<and> 0 \<le> battery s \<and> 0 \<le> altitude s"
  using assms(3)
proof (induction rule: reached_induct)
  case start
  from assms(2) have la: "list_all (list_all (\<lambda>h. 0 \<le> h
      \<and> height inp ! 0 ! 0 + B inp + 1 + h \<le> LLONG_MAX)) (height inp)"
    by (simp add: short_run_def)
  from assms(1) have "0 \<le> (0::int)" "(0::int) < N inp" "(0::int) < M inp"
    by (simp_all add: grid_ok_def)
  from grid_cell [OF assms(1) la this(1,2) this(1) this(3)]
  have "0 \<le> height inp ! 0 ! 0" by simp
  with assms(2) show ?case by (simp add: start_state_def short_run_def)
next
  case (step s d e)
  from move_in_grid [OF step.hyps(3)]
  have g: "0 \<le> row e" "row e < N inp" "0 \<le> col e" "col e < M inp" by blast+
  from assms(2) have la: "list_all (list_all (\<lambda>h. 0 \<le> h
      \<and> height inp ! 0 ! 0 + B inp + 1 + h \<le> LLONG_MAX)) (height inp)"
    by (simp add: short_run_def)
  from grid_cell [OF assms(1) la g]
  have h: "0 \<le> height inp ! nat (row e) ! nat (col e)" by simp
  from step.hyps(3) have rc: "row e = row s + fst d" "col e = col s + snd d"
    by (auto simp: move_def Let_def split: if_splits prod.splits)
  from assms(2) have k: "K inp = 0 \<or> recharge inp = {}" by (simp add: short_run_def)
  from step.IH have b: "battery s \<le> height inp ! 0 ! 0 + B inp - time s" by simp
  from reached_shape [OF step.hyps(1)] have bs: "battery s \<le> B inp" by blast
  from step.hyps(3) step.IH h rc k bs show ?case
    by (auto simp: move_def advance_def Let_def split: if_splits)
qed

lemma short_run_exact:
  assumes "grid_ok inp" and "short_run inp" and "reached inp s"
  shows "exact_move inp s d"
proof (cases "row s + fst d < 0 \<or> row s + fst d \<ge> N inp \<or> col s + snd d < 0
    \<or> col s + snd d \<ge> M inp")
  case True
  then show ?thesis by (simp add: exact_move_def Let_def)
next
  case False
  let ?h = "height inp ! nat (row s + fst d) ! nat (col s + snd d)"
  from False have g: "0 \<le> row s + fst d" "row s + fst d < N inp" "0 \<le> col s + snd d"
    "col s + snd d < M inp" by simp_all
  from assms(2) have la: "list_all (list_all (\<lambda>h. 0 \<le> h
      \<and> height inp ! 0 ! 0 + B inp + 1 + h \<le> LLONG_MAX)) (height inp)"
    by (simp add: short_run_def)
  from grid_cell [OF assms(1) la g]
  have h: "0 \<le> ?h" "height inp ! 0 ! 0 + B inp + 1 + ?h \<le> LLONG_MAX"
    by simp_all
  from assms(1) have "0 \<le> (0::int)" "(0::int) < N inp" "(0::int) < M inp"
    by (simp_all add: grid_ok_def)
  from grid_cell [OF assms(1) la this(1,2) this(1) this(3)]
  have h0: "0 \<le> height inp ! 0 ! 0" by simp
  from short_run_reached [OF assms]
  have r: "time s + battery s = height inp ! 0 ! 0 + B inp" "0 \<le> battery s" "0 \<le> altitude s"
    by blast+
  from assms(2) have k: "K inp = 0 \<or> recharge inp = {}" and b: "0 \<le> B inp"
    by (simp_all add: short_run_def)
  from reached_shape [OF assms(3)] have bs: "battery s \<le> B inp" by blast
  from r(1) have t: "time s = height inp ! 0 ! 0 + B inp - battery s" by simp
  from h h0 r(2,3) bs b have 1: "fits (time s + 1)" "fits (battery s - 1)"
    by (simp_all add: t fits_def LLONG_MAX_def)
  from h h0 r(2,3) bs b have 2: "fits (?h - altitude s)"
    "fits (time s + 1 + (?h - altitude s))" "fits (battery s - 1 - (?h - altitude s))"
    if "?h > altitude s"
    using that by (simp_all add: t fits_def LLONG_MAX_def)
  have 3: "fits (nb + K inp)"
    if "advance inp s (row s + fst d) (col s + snd d) = (nt, nb, na)"
      "(row s + fst d, col s + snd d) \<in> recharge inp" for nt nb na
  proof -
    from that(2) k have "K inp = 0" by auto
    moreover from that(1) 1(2) 2(3) have "fits nb"
      by (auto simp: advance_def Let_def split: if_splits)
    ultimately show ?thesis by simp
  qed
  from False 1 2 3 show ?thesis
    by (auto simp: exact_move_def Let_def split: prod.splits)
qed

lemma loop_ck_clean:
  assumes "\<And>s d. reached inp s \<Longrightarrow> exact_move inp s d"
  shows "invar inp st {} \<Longrightarrow> \<exists>st'. loop_ck sched inp st = Some (Done st')"
proof (induction st rule: wf_induct_rule [OF wf_progress [of inp]])
  case (1 st)
  show ?case
  proof (cases "pq st = []")
    case True
    then show ?thesis by (subst loop_ck.simps) simp
  next
    case False
    obtain cur st' where p: "pop sched st = (cur, st')" by (cases "pop sched st")
    from pop_invar(2) [OF "1.prems" False p] have "reached inp cur" .
    then have "list_all (exact_move inp cur) dirs" by (simp add: list_all_iff assms)
    with p have ex: "exact_round sched inp st" by (simp add: exact_round_def)
    then have it: "iter_ll sched inp st = iter sched inp st" by (rule iter_ll_exact)
    from False ex have l: "loop_ck sched inp st = loop_ck sched inp (iter sched inp st)"
      by (subst loop_ck.simps) (simp add: it)
    from "1.prems" False have a: "(iter sched inp st, st) \<in> progress inp"
      by (rule iter_progress)
    from "1.prems" False have b: "invar inp (iter sched inp st) {}" by (rule iter_invar)
    from "1.IH" [OF a b] l show ?thesis by simp
  qed
qed

lemma short_run_clean:
  assumes "grid_ok inp" and "short_run inp"
  shows "solve_ck sched inp \<noteq> Some Overflowed"
proof -
  from loop_ck_clean [of inp "init inp" sched, OF short_run_exact [OF assms] init_invar]
  obtain st' where "loop_ck sched inp (init inp) = Some (Done st')" by blast
  then show ?thesis by (auto simp: solve_ck_def split: option.splits)
qed

subsection \<open>The reported time\<close>

text \<open>
  Claim C1 says that the reported time is the least accumulated cost of a route to the
  destination. On the 1 by 2 grid of heights \<open>[[2, 2]]\<close> the route of one move costs 1,
  and the program reports 3. On the 1 by 1 grid of height \<open>INF\<close> the empty route costs 0,
  and the program reports no path. On the grid \<open>[[LLONG_MAX, 0]]\<close> the route of one move
  costs 1; the addition of line 88 overflows, and in 64 bits the entry that is pushed has
  the time \<open>- 2 ^ 63\<close>.
\<close>

theorem least_cost_counterexample:
  "solve_ck first_tie \<lparr>N = 1, M = 2, B = 5, K = 0, height = [[2, 2]], recharge = {}\<rparr>
     = Some (Done (Found 3 [(0, 0, 5, 2, 2), (0, 1, 4, 2, 3)]))
   \<and> arrival_cost \<lparr>N = 1, M = 2, B = 5, K = 0, height = [[2, 2]], recharge = {}\<rparr> [(0, 1)]
     = Some 1
   \<and> \<not> least_cost \<lparr>N = 1, M = 2, B = 5, K = 0, height = [[2, 2]], recharge = {}\<rparr> 3
   \<and> solve_ck first_tie
        \<lparr>N = 1, M = 1, B = 5, K = 0, height = [[2305843009213693951]], recharge = {}\<rparr>
     = Some (Done No_path)
   \<and> arrival_cost
        \<lparr>N = 1, M = 1, B = 5, K = 0, height = [[2305843009213693951]], recharge = {}\<rparr> []
     = Some 0
   \<and> solve_ck first_tie
        \<lparr>N = 1, M = 2, B = 5, K = 0, height = [[9223372036854775807, 0]], recharge = {}\<rparr>
     = Some Overflowed
   \<and> map_option pq (state_after_ll first_tie
        \<lparr>N = 1, M = 2, B = 5, K = 0, height = [[9223372036854775807, 0]], recharge = {}\<rparr> 1
        (init \<lparr>N = 1, M = 2, B = 5, K = 0, height = [[9223372036854775807, 0]], recharge = {}\<rparr>))
     = Some [\<lparr>time = - 9223372036854775808, row = 0, col = 1, battery = 4,
              altitude = 9223372036854775807\<rparr>]
   \<and> arrival_cost
        \<lparr>N = 1, M = 2, B = 5, K = 0, height = [[9223372036854775807, 0]], recharge = {}\<rparr>
        [(0, 1)]
     = Some 1"
proof -
  let ?inp = "\<lparr>N = 1, M = 2, B = 5, K = 0, height = [[2, 2]], recharge = {}\<rparr>"
  let ?inf = "\<lparr>N = 1, M = 1, B = 5, K = 0, height = [[2305843009213693951]], recharge = {}\<rparr>"
  let ?max = "\<lparr>N = 1, M = 2, B = 5, K = 0, height = [[9223372036854775807, 0]], recharge = {}\<rparr>"
  note route_defs = arrival_cost_def start_state_def dirs_def move_def advance_def at_dest_def
    move_cost_def Let_def
  have 1: "solve_ck first_tie ?inp = Some (Done (Found 3 [(0, 0, 5, 2, 2), (0, 1, 4, 2, 3)]))"
    by (simp add: ll_defs run_defs INF_value first_tie_def)
  have 2: "arrival_cost ?inp [(0, 1)] = Some 1"
    by (simp add: route_defs)
  have 3: "\<not> least_cost ?inp 3"
  proof
    assume "least_cost ?inp 3"
    with 2 have "(3::int) \<le> 1" unfolding least_cost_def by blast
    then show False by simp
  qed
  have 4: "solve_ck first_tie ?inf = Some (Done No_path)"
    by (simp add: ll_defs run_defs INF_value first_tie_def)
  have 5: "arrival_cost ?inf [] = Some 0"
    by (simp add: route_defs)
  have 6: "solve_ck first_tie ?max = Some Overflowed"
    by (simp add: ll_defs run_defs INF_value first_tie_def)
  have 7: "map_option pq (state_after_ll first_tie ?max 1 (init ?max))
     = Some [\<lparr>time = - 9223372036854775808, row = 0, col = 1, battery = 4,
              altitude = 9223372036854775807\<rparr>]"
    by (simp add: ll_defs run_defs INF_value first_tie_def)
  have 8: "arrival_cost ?max [(0, 1)] = Some 1"
    by (simp add: route_defs)
  from 1 2 3 4 5 6 7 8 show ?thesis by blast
qed

text \<open>
  Claim C1, amended. For a well-formed grid whose destination can be reached, the routes
  to the destination have a least accumulated cost \<open>c\<close>, and the run of the program
  ends. Unless an operation of the run overflows (then the behaviour is undefined), the
  program reports the time \<open>height[0][0] + c\<close> (the clock starts at the start altitude)
  and a path whose records go by unit grid steps from the origin cell to the destination
  cell when \<open>height[0][0] + c < INF\<close>, and reports that there is no path otherwise. No
  operation overflows when no recharge has an effect (\<open>K = 0\<close> or no station), \<open>B \<ge> 0\<close>,
  the heights are not negative and \<open>height[0][0] + B + 1\<close> plus any height fits into
  \<open>long long\<close>.
\<close>

theorem least_time_reported:
  assumes "grid_ok inp" and "arrival_cost inp ds = Some c0"
  shows "\<exists>c. least_cost inp c \<and>
     (\<exists>r. solve_ck sched inp = Some r \<and>
        (r = Overflowed \<or>
         (if height inp ! 0 ! 0 + c < INF_const
          then \<exists>path. r = Done (Found (height inp ! 0 ! 0 + c) path)
                 \<and> path \<noteq> [] \<and> cell (hd path) = (0, 0)
                 \<and> cell (last path) = (N inp - 1, M inp - 1)
                 \<and> successively adjacent path
          else r = Done No_path))
        \<and> (short_run inp \<longrightarrow> r \<noteq> Overflowed))"
proof -
  from exact_least_time [OF assms, of sched] obtain c where c: "least_cost inp c"
    and e: "if height inp ! 0 ! 0 + c < INF_const
      then \<exists>path. solve sched inp = Some (Found (height inp ! 0 ! 0 + c) path)
             \<and> path \<noteq> [] \<and> cell (hd path) = (0, 0)
             \<and> cell (last path) = (N inp - 1, M inp - 1)
             \<and> successively adjacent path
      else solve sched inp = Some No_path" by blast
  from solve_ck_total [of sched inp] obtain r where r: "solve_ck sched inp = Some r"
    "r = Overflowed \<or> (\<exists>res. r = Done res \<and> solve sched inp = Some res)" by blast
  have "r = Overflowed \<or>
         (if height inp ! 0 ! 0 + c < INF_const
          then \<exists>path. r = Done (Found (height inp ! 0 ! 0 + c) path)
                 \<and> path \<noteq> [] \<and> cell (hd path) = (0, 0)
                 \<and> cell (last path) = (N inp - 1, M inp - 1)
                 \<and> successively adjacent path
          else r = Done No_path)"
  proof (cases "r = Overflowed")
    case True
    then show ?thesis by simp
  next
    case False
    with r(2) obtain res where res: "r = Done res" "solve sched inp = Some res" by blast
    with e show ?thesis by (auto split: if_splits)
  qed
  moreover from short_run_clean [OF assms(1), of sched] r(1)
  have "short_run inp \<longrightarrow> r \<noteq> Overflowed" by auto
  ultimately show ?thesis using c r(1) by blast
qed

text \<open>
  The scenario of the 2 by 2 grid of height 0 with \<open>B = 10\<close>: the least cost is 2, and
  the run does not overflow.
\<close>

theorem least_time_reported_witness:
  "grid_ok \<lparr>N = 2, M = 2, B = 10, K = 0, height = [[0, 0], [0, 0]], recharge = {}\<rparr>
   \<and> arrival_cost \<lparr>N = 2, M = 2, B = 10, K = 0, height = [[0, 0], [0, 0]], recharge = {}\<rparr>
        [(0, 1), (1, 0)] = Some 2
   \<and> short_run \<lparr>N = 2, M = 2, B = 10, K = 0, height = [[0, 0], [0, 0]], recharge = {}\<rparr>
   \<and> least_cost \<lparr>N = 2, M = 2, B = 10, K = 0, height = [[0, 0], [0, 0]], recharge = {}\<rparr> 2
   \<and> solve_ck first_tie
        \<lparr>N = 2, M = 2, B = 10, K = 0, height = [[0, 0], [0, 0]], recharge = {}\<rparr>
      = Some (Done (Found 2 [(0, 0, 10, 0, 0), (0, 1, 9, 0, 1), (1, 1, 8, 0, 2)]))"
proof -
  let ?inp = "\<lparr>N = 2, M = 2, B = 10, K = 0, height = [[0, 0], [0, 0]], recharge = {}\<rparr>"
  have g: "grid_ok ?inp" by (simp add: grid_ok_def)
  have a: "arrival_cost ?inp [(0, 1), (1, 0)] = Some 2"
    by (simp add: arrival_cost_def start_state_def dirs_def move_def advance_def at_dest_def
        move_cost_def Let_def)
  have s: "solve_ck first_tie ?inp
      = Some (Done (Found 2 [(0, 0, 10, 0, 0), (0, 1, 9, 0, 1), (1, 1, 8, 0, 2)]))"
    by (simp add: ll_defs run_defs INF_value first_tie_def)
  from least_time_reported [OF g a, of first_tie] obtain c r where
    c: "least_cost ?inp c" and r: "solve_ck first_tie ?inp = Some r"
    and d: "r = Overflowed \<or>
         (if height ?inp ! 0 ! 0 + c < INF_const
          then \<exists>path. r = Done (Found (height ?inp ! 0 ! 0 + c) path)
                 \<and> path \<noteq> [] \<and> cell (hd path) = (0, 0)
                 \<and> cell (last path) = (N ?inp - 1, M ?inp - 1)
                 \<and> successively adjacent path
          else r = Done No_path)" by metis
  from r s have "r = Done (Found 2 [(0, 0, 10, 0, 0), (0, 1, 9, 0, 1), (1, 1, 8, 0, 2)])"
    by simp
  with d have "c = 2" by (auto split: if_splits)
  moreover have "short_run ?inp" by (simp add: short_run_def LLONG_MAX_def)
  ultimately show ?thesis using c g a s by simp
qed

subsection \<open>The recharge of line 106\<close>

text \<open>
  Claim C5 says that the stored battery is \<open>min(B, b' + K)\<close>. On the input
  \<open>1 3 10 9223372036854775807 / 0 0 0 / 1 / 1 2\<close> the move from the origin into the
  station has \<open>b' = 9\<close>, so \<open>min(B, b' + K) = 10\<close>; the sum of line 106 overflows, and in
  64 bits the battery that is stored is \<open>- 9223372036854775800\<close>.
\<close>

theorem recharge_overflow_counterexample:
  "read_input no_junk [1, 3, 10, 9223372036854775807, 0, 0, 0, 1, 1, 2]
     = \<lparr>N = 1, M = 3, B = 10, K = 9223372036854775807, height = [[0, 0, 0]],
        recharge = {(0, 1)}\<rparr>
   \<and> move_ll \<lparr>N = 1, M = 3, B = 10, K = 9223372036854775807, height = [[0, 0, 0]],
               recharge = {(0, 1)}\<rparr>
        \<lparr>time = 0, row = 0, col = 0, battery = 10, altitude = 0\<rparr> (0, 1)
     = Some \<lparr>time = 1, row = 0, col = 1, battery = - 9223372036854775800, altitude = 0\<rparr>
   \<and> advance_ll \<lparr>N = 1, M = 3, B = 10, K = 9223372036854775807, height = [[0, 0, 0]],
               recharge = {(0, 1)}\<rparr>
        \<lparr>time = 0, row = 0, col = 0, battery = 10, altitude = 0\<rparr> 0 1 = (1, 9, 0)
   \<and> min (10::int) (9 + 9223372036854775807) = 10
   \<and> (- 9223372036854775800::int) \<noteq> 10"
  by (simp add: read_defs move_ll_def advance_ll_def wrap_def Let_def numeral_3_eq_3)

text \<open>
  Claim C5, amended. A generated move into a station cell stores, in the key of the new
  state, the battery \<open>min(B, b' + K)\<close> with the sum taken in \<open>long long\<close>, where \<open>b'\<close> is
  the battery after the cost of the move: that is \<open>min(B, b' + K)\<close> whenever \<open>b' + K\<close>
  fits into \<open>long long\<close>, and \<open>b'\<close> is the battery before the move less the full cost of
  the move whenever no operation of the move overflows. The move is generated only when
  \<open>b'\<close> is not negative, whatever a recharge would add, and the entry is filed in the
  distance table under the key that holds the recharged battery.
\<close>

theorem recharge_on_arrival:
  "(move_ll inp cur d = Some e \<and> (row e, col e) \<in> recharge inp \<longrightarrow>
      0 \<le> fst (snd (advance_ll inp cur (row cur + fst d) (col cur + snd d)))
      \<and> key_of e =
          (row cur + fst d, col cur + snd d,
           min (B inp)
             (wrap (fst (snd (advance_ll inp cur (row cur + fst d) (col cur + snd d))) + K inp)),
           snd (snd (advance_ll inp cur (row cur + fst d) (col cur + snd d))))
      \<and> (fits (fst (snd (advance_ll inp cur (row cur + fst d) (col cur + snd d))) + K inp) \<longrightarrow>
           battery e =
             min (B inp)
               (fst (snd (advance_ll inp cur (row cur + fst d) (col cur + snd d))) + K inp))
      \<and> (exact_move inp cur d \<longrightarrow>
           fst (snd (advance_ll inp cur (row cur + fst d) (col cur + snd d)))
             = battery cur - move_cost inp cur e
           \<and> battery e = min (B inp) (battery cur - move_cost inp cur e + K inp)))
   \<and> (fst (snd (advance_ll inp cur (row cur + fst d) (col cur + snd d))) < 0 \<longrightarrow>
        move_ll inp cur d = None)
   \<and> (dist st (key_of e) = None \<longrightarrow>
        dist (relax k e st) (key_of e) = Some (time e) \<and> e \<in> set (pq (relax k e st)))"
proof (intro conjI impI)
  let ?nb = "fst (snd (advance_ll inp cur (row cur + fst d) (col cur + snd d)))"
  assume a: "move_ll inp cur d = Some e \<and> (row e, col e) \<in> recharge inp"
  then have rc: "row e = row cur + fst d" "col e = col cur + snd d"
    by (auto simp: move_ll_def Let_def split: if_splits prod.splits)
  from a show nn: "0 \<le> ?nb"
    by (auto simp: move_ll_def Let_def split: if_splits prod.splits)
  from a show "key_of e =
          (row cur + fst d, col cur + snd d, min (B inp) (wrap (?nb + K inp)),
           snd (snd (advance_ll inp cur (row cur + fst d) (col cur + snd d))))"
    by (auto simp: move_ll_def Let_def key_of_def split: if_splits prod.splits)
  from a have be: "battery e = min (B inp) (wrap (?nb + K inp))"
    by (auto simp: move_ll_def Let_def split: if_splits prod.splits)
  {
    assume "fits (?nb + K inp)"
    with be show "battery e = min (B inp) (?nb + K inp)" by (simp add: wrap_fits)
  }
  {
    assume ex: "exact_move inp cur d"
    from a have ingrid: "\<not> (row cur + fst d < 0 \<or> row cur + fst d \<ge> N inp
        \<or> col cur + snd d < 0 \<or> col cur + snd d \<ge> M inp)"
      by (auto simp: move_ll_def Let_def split: if_splits)
    from ex ingrid have "advance_ll inp cur (row cur + fst d) (col cur + snd d)
        = advance inp cur (row cur + fst d) (col cur + snd d)"
      by (intro advance_ll_exact) (simp_all add: exact_move_def Let_def)
    then have nb: "?nb = battery cur - move_cost inp cur e"
      by (simp add: advance_def move_cost_def rc Let_def)
    have eq: "battery cur - 1 - x + K inp = battery cur - (1 + x) + K inp" for x
      by simp
    from ex ingrid nn a rc nb have "fits (?nb + K inp)"
      by (auto simp: exact_move_def Let_def advance_def move_cost_def eq split: if_splits)
    with be nb show "?nb = battery cur - move_cost inp cur e"
      and "battery e = min (B inp) (battery cur - move_cost inp cur e + K inp)"
      by (simp_all add: wrap_fits)
  }
next
  assume "fst (snd (advance_ll inp cur (row cur + fst d) (col cur + snd d))) < 0"
  then show "move_ll inp cur d = None"
    by (auto simp: move_ll_def Let_def split: prod.splits)
next
  assume "dist st (key_of e) = None"
  then show "dist (relax k e st) (key_of e) = Some (time e)" and "e \<in> set (pq (relax k e st))"
    by (simp_all add: relax_def)
qed

text \<open>A move back into the station at the origin, and the same move with no battery left.\<close>

theorem recharge_on_arrival_witness:
  "move_ll \<lparr>N = 1, M = 3, B = 7, K = 7, height = [[0, 5, 7]], recharge = {(0, 0)}\<rparr>
        \<lparr>time = 6, row = 0, col = 1, battery = 1, altitude = 5\<rparr> (0, -1)
     = Some \<lparr>time = 7, row = 0, col = 0, battery = 7, altitude = 5\<rparr>
   \<and> exact_move \<lparr>N = 1, M = 3, B = 7, K = 7, height = [[0, 5, 7]], recharge = {(0, 0)}\<rparr>
        \<lparr>time = 6, row = 0, col = 1, battery = 1, altitude = 5\<rparr> (0, -1)
   \<and> key_of \<lparr>time = 7, row = 0, col = 0, battery = 7, altitude = 5\<rparr> = (0, 0, min 7 (0 + 7), 5)
   \<and> move_ll \<lparr>N = 1, M = 3, B = 7, K = 7, height = [[0, 5, 7]], recharge = {(0, 0)}\<rparr>
        \<lparr>time = 6, row = 0, col = 1, battery = 0, altitude = 5\<rparr> (0, -1) = None"
  using recharge_on_arrival [of "\<lparr>N = 1, M = 3, B = 7, K = 7, height = [[0, 5, 7]], recharge = {(0, 0)}\<rparr>"
      "\<lparr>time = 6, row = 0, col = 1, battery = 1, altitude = 5\<rparr>" "(0, -1)"
      "\<lparr>time = 7, row = 0, col = 0, battery = 7, altitude = 5\<rparr>"
      "init \<lparr>N = 1, M = 3, B = 7, K = 7, height = [[0, 5, 7]], recharge = {(0, 0)}\<rparr>" "(0, 1, 1, 5)"]
    recharge_on_arrival [of "\<lparr>N = 1, M = 3, B = 7, K = 7, height = [[0, 5, 7]], recharge = {(0, 0)}\<rparr>"
      "\<lparr>time = 6, row = 0, col = 1, battery = 0, altitude = 5\<rparr>" "(0, -1)"
      "\<lparr>time = 7, row = 0, col = 0, battery = 7, altitude = 5\<rparr>"
      "init \<lparr>N = 1, M = 3, B = 7, K = 7, height = [[0, 5, 7]], recharge = {(0, 0)}\<rparr>" "(0, 1, 1, 5)"]
  by (simp add: move_ll_def advance_ll_def exact_move_def advance_def wrap_def fits_def
      LLONG_MAX_def Let_def key_of_def)

subsection \<open>The origin record of the path\<close>

lemma init_ignores_stations:
  "pq (init inp) =
     [\<lparr>time = height inp ! 0 ! 0, row = 0, col = 0, battery = B inp,
       altitude = height inp ! 0 ! 0\<rparr>]"
  and "dist (init inp) = [(0, 0, B inp, height inp ! 0 ! 0) \<mapsto> height inp ! 0 ! 0]"
  and "init (inp\<lparr>recharge := R\<rparr>) = init inp"
  by (simp_all add: init_def Let_def)

text \<open>
  Claim C10 at the input \<open>1 3 7 5 / 0 5 7 / 1 / 1 1\<close>. The search starts with battery
  \<open>B = 7\<close>, and the start does not consult the recharge set (lemma
  \<open>init_ignores_stations\<close>). But the only route to the destination returns to the station
  at the origin, and the reconstruction stops at that later state of the origin cell
  (line 129): the origin record that is printed has the recharged battery 5, and without
  the station nothing is printed but \<open>-1\<close>. No operation of either run overflows.
\<close>

theorem origin_record_recharged:
  "read_input g [1, 3, 7, 5, 0, 5, 7, 1, 1, 1]
     = \<lparr>N = 1, M = 3, B = 7, K = 5, height = [[0, 5, 7]], recharge = {(0, 0)}\<rparr>
   \<and> solve_ck sched \<lparr>N = 1, M = 3, B = 7, K = 5, height = [[0, 5, 7]], recharge = {(0, 0)}\<rparr>
     = Some (Done (Found 11 [(0, 0, 5, 5, 7), (0, 1, 4, 5, 8), (0, 2, 1, 7, 11)]))
   \<and> step_battery (hd [(0, 0, 5, 5, 7), (0, 1, 4, 5, 8), (0, 2, 1, 7, 11)])
     \<noteq> B \<lparr>N = 1, M = 3, B = 7, K = 5, height = [[0, 5, 7]], recharge = {(0, 0)}\<rparr>
   \<and> solve_ck sched \<lparr>N = 1, M = 3, B = 7, K = 5, height = [[0, 5, 7]], recharge = {}\<rparr>
     = Some (Done No_path)"
  apply (intro conjI)
     apply (simp add: read_defs numeral_2_eq_2 numeral_3_eq_3)
    apply (simp add: ll_defs run_defs INF_value)
   apply (simp add: step_battery_def)
  apply (simp add: ll_defs run_defs INF_value)
  done

subsection \<open>The battery in 64 bits\<close>

lemma advance_ll_battery:
  assumes s: "sound_entry inp cur" and b: "B inp - 1 \<le> LLONG_MAX"
    and h: "0 \<le> height inp ! nat nr ! nat nc" "height inp ! nat nr ! nat nc \<le> LLONG_MAX"
  shows "fst (snd (advance_ll inp cur nr nc))
         = battery cur - (1 + (if height inp ! nat nr ! nat nc > altitude cur
                               then height inp ! nat nr ! nat nc - altitude cur else 0))"
    and "snd (snd (advance_ll inp cur nr nc))
         = (if height inp ! nat nr ! nat nc > altitude cur
            then height inp ! nat nr ! nat nc else altitude cur)"
proof -
  from s have c: "0 \<le> battery cur" "battery cur \<le> B inp" "0 \<le> altitude cur"
    "altitude cur \<le> LLONG_MAX" by (simp_all add: sound_entry_def)
  from c b have 1: "wrap (battery cur - 1) = battery cur - 1"
    by (intro wrap_fits) (simp add: fits_def LLONG_MAX_def)
  from c h have 2: "wrap (height inp ! nat nr ! nat nc - altitude cur)
      = height inp ! nat nr ! nat nc - altitude cur"
    by (intro wrap_fits) (simp add: fits_def LLONG_MAX_def)
  have 3: "wrap (battery cur - 1 - (height inp ! nat nr ! nat nc - altitude cur))
      = battery cur - 1 - (height inp ! nat nr ! nat nc - altitude cur)"
    if "height inp ! nat nr ! nat nc > altitude cur"
    using c h b that by (intro wrap_fits) (simp add: fits_def LLONG_MAX_def)
  show "fst (snd (advance_ll inp cur nr nc))
         = battery cur - (1 + (if height inp ! nat nr ! nat nc > altitude cur
                               then height inp ! nat nr ! nat nc - altitude cur else 0))"
    by (simp add: advance_ll_def Let_def 1 2 3)
  show "snd (snd (advance_ll inp cur nr nc))
         = (if height inp ! nat nr ! nat nc > altitude cur
            then height inp ! nat nr ! nat nc else altitude cur)"
    by (simp add: advance_ll_def Let_def)
qed

lemma move_ll_sound:
  assumes g: "grid_ok inp" and ho: "heights_ok inp" and k: "0 \<le> K inp"
    and bk: "B inp + K inp - 1 \<le> LLONG_MAX"
    and s: "sound_entry inp cur" and m: "move_ll inp cur d = Some e"
  shows "sound_entry inp e"
proof -
  define nr where "nr = row cur + fst d"
  define nc where "nc = col cur + snd d"
  define hh where "hh = height inp ! nat nr ! nat nc"
  define nb where "nb = fst (snd (advance_ll inp cur nr nc))"
  from m have ingrid: "0 \<le> nr" "nr < N inp" "0 \<le> nc" "nc < M inp"
    by (auto simp: move_ll_def Let_def nr_def nc_def split: if_splits)
  from ho have la: "list_all (list_all (\<lambda>h. 0 \<le> h \<and> h \<le> LLONG_MAX)) (height inp)"
    by (simp add: heights_ok_def)
  from grid_cell [OF g la ingrid] have h: "0 \<le> hh" "hh \<le> LLONG_MAX" by (simp_all add: hh_def)
  from k bk have b: "B inp - 1 \<le> LLONG_MAX" by simp
  from s have c: "0 \<le> battery cur" "battery cur \<le> B inp" "0 \<le> altitude cur"
    "altitude cur \<le> LLONG_MAX" by (simp_all add: sound_entry_def)
  from advance_ll_battery [OF s b, of nr nc] h
  have nb: "nb = battery cur - (1 + (if hh > altitude cur then hh - altitude cur else 0))"
    and al: "snd (snd (advance_ll inp cur nr nc)) = (if hh > altitude cur then hh else altitude cur)"
    by (simp_all add: hh_def nb_def)
  from m ingrid have nn: "0 \<le> nb"
    and be: "battery e = (if (nr, nc) \<in> recharge inp then min (B inp) (wrap (nb + K inp)) else nb)"
    and ae: "altitude e = snd (snd (advance_ll inp cur nr nc))"
    by (auto simp: move_ll_def Let_def nr_def nc_def nb_def split: if_splits prod.splits)
  from nb c have le: "nb \<le> B inp - 1" by (simp split: if_splits)
  from nn le k bk have "wrap (nb + K inp) = nb + K inp"
    by (intro wrap_fits) (simp add: fits_def LLONG_MAX_def)
  with be nn le k have "0 \<le> battery e \<and> battery e \<le> B inp" by (simp split: if_splits)
  moreover from ae al c h have "0 \<le> altitude e \<and> altitude e \<le> LLONG_MAX"
    by (simp split: if_splits)
  ultimately show ?thesis by (simp add: sound_entry_def)
qed

lemma relax_dir_ll_sound:
  assumes "grid_ok inp" and "heights_ok inp" and "0 \<le> K inp"
    and "B inp + K inp - 1 \<le> LLONG_MAX"
    and "sound_entry inp cur" and "list_all (sound_entry inp) (pq st)"
  shows "list_all (sound_entry inp) (pq (relax_dir_ll inp cur d st))"
proof (cases "move_ll inp cur d")
  case None
  with assms(6) show ?thesis by (simp add: relax_dir_ll_def)
next
  case (Some e)
  from move_ll_sound [OF assms(1-5) Some] have "sound_entry inp e" .
  with assms(6) Some show ?thesis by (simp add: relax_dir_ll_def relax_def)
qed

lemma fold_relax_ll_sound:
  assumes "grid_ok inp" and "heights_ok inp" and "0 \<le> K inp"
    and "B inp + K inp - 1 \<le> LLONG_MAX" and "sound_entry inp cur"
  shows "list_all (sound_entry inp) (pq st) \<Longrightarrow>
         list_all (sound_entry inp) (pq (fold (relax_dir_ll inp cur) ds st))"
proof (induction ds arbitrary: st)
  case Nil
  then show ?case by simp
next
  case (Cons d ds)
  from relax_dir_ll_sound [OF assms Cons.prems]
  have "list_all (sound_entry inp) (pq (relax_dir_ll inp cur d st))" .
  from Cons.IH [OF this] show ?case by simp
qed

lemma iter_ll_sound:
  assumes "grid_ok inp" and "heights_ok inp" and "0 \<le> K inp"
    and "B inp + K inp - 1 \<le> LLONG_MAX"
    and ne: "pq st \<noteq> []" and a: "list_all (sound_entry inp) (pq st)"
  shows "list_all (sound_entry inp) (pq (iter_ll sched inp st))"
proof -
  obtain cur st' where p: "pop sched st = (cur, st')" by (cases "pop sched st")
  from pop_facts(1,3) [OF ne p] a have c: "sound_entry inp cur"
    and a': "list_all (sound_entry inp) (pq st')"
    by (auto simp: list_all_iff)
  from a' have "list_all (sound_entry inp) (pq (visit_dest cur st'))"
    by (simp add: visit_dest_def)
  moreover from fold_relax_ll_sound [OF assms(1-4) c a']
  have "list_all (sound_entry inp) (pq (expand_ll inp cur st'))" by (simp add: expand_ll_def)
  ultimately show ?thesis using a' p by (simp add: iter_ll_def visit_ll_def)
qed

lemma state_after_ll_sound:
  assumes "grid_ok inp" and "heights_ok inp" and "0 \<le> K inp"
    and "B inp + K inp - 1 \<le> LLONG_MAX"
  shows "list_all (sound_entry inp) (pq st0) \<Longrightarrow> state_after_ll sched inp n st0 = Some st \<Longrightarrow>
         list_all (sound_entry inp) (pq st)"
proof (induction n arbitrary: st0)
  case 0
  then show ?case by simp
next
  case (Suc n)
  from Suc.prems(2) have ne: "pq st0 \<noteq> []"
    and nx: "state_after_ll sched inp n (iter_ll sched inp st0) = Some st"
    by (auto split: if_splits)
  from iter_ll_sound [OF assms ne Suc.prems(1)]
  have "list_all (sound_entry inp) (pq (iter_ll sched inp st0))" .
  from Suc.IH [OF this nx] show ?case .
qed

lemma init_sound:
  assumes g: "grid_ok inp" and ho: "heights_ok inp" and b: "0 \<le> B inp"
  shows "list_all (sound_entry inp) (pq (init inp))"
proof -
  from ho have la: "list_all (list_all (\<lambda>h. 0 \<le> h \<and> h \<le> LLONG_MAX)) (height inp)"
    by (simp add: heights_ok_def)
  from g have "0 \<le> (0::int)" "0 < N inp" "0 < M inp" by (simp_all add: grid_ok_def)
  from grid_cell [OF g la this(1,2,1,3)]
  have "0 \<le> height inp ! 0 ! 0 \<and> height inp ! 0 ! 0 \<le> LLONG_MAX" by simp
  with b show ?thesis by (simp add: init_def Let_def sound_entry_def)
qed

text \<open>
  Claim C7 says that \<open>B \<ge> 0\<close> and \<open>K \<ge> 0\<close> are enough. On the input
  \<open>1 2 10 9223372036854775807 / 0 0 / 1 / 1 2\<close> the first round of the loop moves into
  the station with battery 9, and \<open>9 + K\<close> of line 106 overflows: the behaviour is
  undefined from there, and where the sum wraps around the entry that is pushed has the
  battery \<open>- 9223372036854775800\<close>.
\<close>

theorem battery_overflow_counterexample:
  "read_input no_junk [1, 2, 10, 9223372036854775807, 0, 0, 1, 1, 2]
     = \<lparr>N = 1, M = 2, B = 10, K = 9223372036854775807, height = [[0, 0]],
        recharge = {(0, 1)}\<rparr>
   \<and> 0 \<le> B \<lparr>N = 1, M = 2, B = 10, K = 9223372036854775807, height = [[0, 0]],
             recharge = {(0, 1)}\<rparr>
   \<and> 0 \<le> K \<lparr>N = 1, M = 2, B = 10, K = 9223372036854775807, height = [[0, 0]],
             recharge = {(0, 1)}\<rparr>
   \<and> solve_ck first_tie \<lparr>N = 1, M = 2, B = 10, K = 9223372036854775807, height = [[0, 0]],
             recharge = {(0, 1)}\<rparr> = Some Overflowed
   \<and> map_option pq (state_after_ll first_tie
        \<lparr>N = 1, M = 2, B = 10, K = 9223372036854775807, height = [[0, 0]],
          recharge = {(0, 1)}\<rparr> 1
        (init \<lparr>N = 1, M = 2, B = 10, K = 9223372036854775807, height = [[0, 0]],
          recharge = {(0, 1)}\<rparr>))
     = Some [\<lparr>time = 1, row = 0, col = 1, battery = - 9223372036854775800, altitude = 0\<rparr>]
   \<and> \<not> 0 \<le> battery \<lparr>time = 1, row = 0, col = 1, battery = - 9223372036854775800,
                      altitude = 0\<rparr>"
  apply (intro conjI)
       apply (simp add: read_defs numeral_2_eq_2)
      apply simp
     apply simp
    apply (simp add: ll_defs run_defs first_tie_def INF_value)
   apply (simp add: ll_defs run_defs first_tie_def INF_value)
  apply simp
  done

text \<open>
  Claim C7, amended. On a well-formed grid with heights between 0 and \<open>LLONG_MAX\<close>, with
  \<open>B \<ge> 0\<close>, \<open>K \<ge> 0\<close> and \<open>B + K - 1 \<le> LLONG_MAX\<close>, so that the sum of line 106 cannot
  overflow, every entry that is in the queue after any number of rounds of the loop with
  its arithmetic in 64 bits has a battery between 0 and \<open>B\<close>; so has every record of a
  path that a run without overflow reports; and from an entry with battery and altitude
  in range no move is generated when the battery less the cost of the move, before any
  recharge, is negative.
\<close>

theorem battery_in_range:
  assumes "grid_ok inp" and "heights_ok inp" and "0 \<le> B inp" and "0 \<le> K inp"
    and "B inp + K inp - 1 \<le> LLONG_MAX"
  shows "(\<forall>n st e. state_after_ll sched inp n (init inp) = Some st \<longrightarrow> e \<in> set (pq st) \<longrightarrow>
            0 \<le> battery e \<and> battery e \<le> B inp)
     \<and> (\<forall>t path p. solve_ck sched inp = Some (Done (Found t path)) \<longrightarrow> p \<in> set path \<longrightarrow>
            0 \<le> step_battery p \<and> step_battery p \<le> B inp)
     \<and> (\<forall>cur d. sound_entry inp cur \<longrightarrow>
            battery cur
              - (1 + (if height inp ! nat (row cur + fst d) ! nat (col cur + snd d) > altitude cur
                      then height inp ! nat (row cur + fst d) ! nat (col cur + snd d)
                           - altitude cur
                      else 0)) < 0 \<longrightarrow>
            move_ll inp cur d = None)"
proof -
  have 1: "0 \<le> battery e \<and> battery e \<le> B inp"
    if sa: "state_after_ll sched inp n (init inp) = Some st" and e: "e \<in> set (pq st)"
    for n st e
  proof -
    from state_after_ll_sound [OF assms(1,2,4,5) init_sound [OF assms(1,2,3)] sa] e
    have "sound_entry inp e" by (simp add: list_all_iff)
    then show ?thesis by (simp add: sound_entry_def)
  qed
  have 2: "0 \<le> step_battery p \<and> step_battery p \<le> B inp"
    if s: "solve_ck sched inp = Some (Done (Found t path))" and p: "p \<in> set path" for t path p
  proof -
    from solve_ck_Done [OF s] have "solve sched inp = Some (Found t path)" .
    with exact_battery_bounds [OF assms(1,3,4), of sched] p show ?thesis by blast
  qed
  have 3: "move_ll inp cur d = None"
    if s: "sound_entry inp cur"
      and neg: "battery cur
              - (1 + (if height inp ! nat (row cur + fst d) ! nat (col cur + snd d) > altitude cur
                      then height inp ! nat (row cur + fst d) ! nat (col cur + snd d)
                           - altitude cur
                      else 0)) < 0" for cur d
  proof (cases "row cur + fst d < 0 \<or> row cur + fst d \<ge> N inp \<or> col cur + snd d < 0
      \<or> col cur + snd d \<ge> M inp")
    case True
    then show ?thesis by (auto simp: move_ll_def Let_def)
  next
    case False
    from assms(2) have la: "list_all (list_all (\<lambda>h. 0 \<le> h \<and> h \<le> LLONG_MAX)) (height inp)"
      by (simp add: heights_ok_def)
    from False have ingrid: "0 \<le> row cur + fst d" "row cur + fst d < N inp"
      "0 \<le> col cur + snd d" "col cur + snd d < M inp" by simp_all
    from grid_cell [OF assms(1) la ingrid]
    have h: "0 \<le> height inp ! nat (row cur + fst d) ! nat (col cur + snd d)"
      "height inp ! nat (row cur + fst d) ! nat (col cur + snd d) \<le> LLONG_MAX" by simp_all
    from assms(4,5) have b: "B inp - 1 \<le> LLONG_MAX" by simp
    from advance_ll_battery(1) [OF s b h] neg
    have "fst (snd (advance_ll inp cur (row cur + fst d) (col cur + snd d))) < 0" by simp
    then show ?thesis by (auto simp: move_ll_def Let_def split: prod.splits)
  qed
  from 1 2 3 show ?thesis by blast
qed

text \<open>
  A run into a station with a recharge that fits: the entry in the queue after one round
  has battery 10, and with battery 5 the climb of 5 is not generated.
\<close>

theorem battery_in_range_witness:
  "grid_ok \<lparr>N = 1, M = 2, B = 10, K = 9223372036854775798, height = [[0, 5]],
            recharge = {(0, 1)}\<rparr>
   \<and> heights_ok \<lparr>N = 1, M = 2, B = 10, K = 9223372036854775798, height = [[0, 5]],
            recharge = {(0, 1)}\<rparr>
   \<and> (10::int) + 9223372036854775798 - 1 \<le> LLONG_MAX
   \<and> map_option pq (state_after_ll first_tie
        \<lparr>N = 1, M = 2, B = 10, K = 9223372036854775798, height = [[0, 5]],
          recharge = {(0, 1)}\<rparr> 1
        (init \<lparr>N = 1, M = 2, B = 10, K = 9223372036854775798, height = [[0, 5]],
          recharge = {(0, 1)}\<rparr>))
      = Some [\<lparr>time = 6, row = 0, col = 1, battery = 10, altitude = 5\<rparr>]
   \<and> (0::int) \<le> 10 \<and> (10::int) \<le> 10
   \<and> solve_ck first_tie \<lparr>N = 1, M = 2, B = 10, K = 9223372036854775798, height = [[0, 5]],
            recharge = {(0, 1)}\<rparr>
      = Some (Done (Found 6 [(0, 0, 10, 0, 0), (0, 1, 10, 5, 6)]))
   \<and> sound_entry \<lparr>N = 1, M = 2, B = 10, K = 9223372036854775798, height = [[0, 5]],
            recharge = {(0, 1)}\<rparr>
        \<lparr>time = 0, row = 0, col = 0, battery = 5, altitude = 0\<rparr>
   \<and> move_ll \<lparr>N = 1, M = 2, B = 10, K = 9223372036854775798, height = [[0, 5]],
            recharge = {(0, 1)}\<rparr>
        \<lparr>time = 0, row = 0, col = 0, battery = 5, altitude = 0\<rparr> (0, 1) = None"
proof -
  let ?inp = "\<lparr>N = 1, M = 2, B = 10, K = 9223372036854775798, height = [[0, 5]],
            recharge = {(0, 1)}\<rparr>"
  let ?cur = "\<lparr>time = 0, row = 0, col = 0, battery = 5, altitude = 0\<rparr>"
  have g: "grid_ok ?inp" by (simp add: grid_ok_def)
  have ho: "heights_ok ?inp" by (simp add: heights_ok_def LLONG_MAX_def)
  have b: "0 \<le> B ?inp" "0 \<le> K ?inp" by simp_all
  have bk: "B ?inp + K ?inp - 1 \<le> LLONG_MAX" by (simp add: LLONG_MAX_def)
  have s: "map_option pq (state_after_ll first_tie ?inp 1 (init ?inp))
      = Some [\<lparr>time = 6, row = 0, col = 1, battery = 10, altitude = 5\<rparr>]"
    by (simp add: ll_defs run_defs first_tie_def)
  have r: "solve_ck first_tie ?inp = Some (Done (Found 6 [(0, 0, 10, 0, 0), (0, 1, 10, 5, 6)]))"
    by (simp add: ll_defs run_defs first_tie_def INF_value)
  have se: "sound_entry ?inp ?cur" by (simp add: sound_entry_def LLONG_MAX_def)
  have neg: "battery ?cur
      - (1 + (if height ?inp ! nat (row ?cur + fst (0::int, 1::int))
                  ! nat (col ?cur + snd (0::int, 1::int)) > altitude ?cur
              then height ?inp ! nat (row ?cur + fst (0::int, 1::int))
                  ! nat (col ?cur + snd (0::int, 1::int)) - altitude ?cur
              else 0)) < 0"
    by simp
  from battery_in_range [OF g ho b bk, of first_tie] se neg
  have "move_ll ?inp ?cur (0, 1) = None" by blast
  with g ho bk s r se show ?thesis by simp
qed

end
